theory Spec2Isabelle
  imports Main
begin

section \<open>The frontend logger (frontend/lib/logger.ts)\<close>

text \<open>
  A shallow embedding of the class \<open>Logger\<close>. The instance fields that change
  (\<open>logHistory\<close>, \<open>pendingLogs\<close>), the one \<open>localStorage\<close> item the class owns and the
  requests that are still awaiting their response are the components of an explicit state;
  what the browser decides (is there a \<open>window\<close>, is there a \<open>fetch\<close>, does
  \<open>localStorage\<close> throw, what does the request answer) is an explicit argument of the
  operation that asks for it. Console output is not part of the state: no operation reads
  it back.
\<close>

subsection \<open>Entries\<close>

datatype LogLevel = Debug | Info | Warn | Error

text \<open>
  The field \<open>data\<close> has the type \<open>unknown\<close>. The code looks at a value in three ways:
  \<open>data instanceof Error\<close>, \<open>data.stack\<close> (which any object may have, and an \<open>Error\<close>
  may lack) and \<open>JSON.stringify\<close>. \<open>JSON.stringify\<close> rejects a value with a \<open>TypeError\<close>
  (a cyclic object, a BigInt), leaves the property that holds it out (a function, a
  symbol), or writes a text; with the text goes the \<open>stack\<close> property of the value that
  the text parses back to (an own enumerable \<open>stack\<close> is written, the \<open>stack\<close> of an
  \<open>Error\<close> is not). \<open>None\<close> in the field is \<open>undefined\<close>.
\<close>

datatype serialised = Rejected | Omitted | Text string "string option"

datatype js_value =
  JsValue (instanceof_Error: bool) (stack_of: "string option") (serialised_as: serialised)

record LogEntry =
  level :: LogLevel
  message :: string
  timestamp :: string
  data :: "js_value option"
  component :: "string option"
  action :: "string option"
  userAgent :: "string option"
  url :: "string option"
  stack :: "string option"

definition maxHistorySize :: nat where
  "maxHistorySize = 100"

definition maxLocalStorageSize :: nat where
  "maxLocalStorageSize = 500"

subsection \<open>Array operations of the host language\<close>

text \<open>
  \<open>xs.slice(start)\<close> for an integer \<open>start\<close>: a negative start counts from the end and
  stops at the beginning of the array, a positive one stops at its end. A string is
  sliced in the same way.
\<close>

definition slice_from :: "int \<Rightarrow> 'a list \<Rightarrow> 'a list" where
  "slice_from start xs =
     (if start < 0 then drop (length xs - nat (- start)) xs else drop (nat start) xs)"

text \<open>\<open>xs.slice(0, n)\<close> for a natural number \<open>n\<close>.\<close>

definition slice_upto :: "nat \<Rightarrow> 'a list \<Rightarrow> 'a list" where
  "slice_upto n xs = take n xs"

text \<open>\<open>xs.shift()\<close> removes the first element; on an empty array it does nothing.\<close>

definition shift :: "'a list \<Rightarrow> 'a list" where
  "shift xs = (case xs of [] \<Rightarrow> [] | _ # rest \<Rightarrow> rest)"

subsection \<open>The host\<close>

text \<open>
  What one call observes of its environment. \<open>has_fetch\<close>: the global \<open>fetch\<close> exists;
  \<open>storage_blocked\<close>: every access to \<open>localStorage\<close> throws; \<open>quota_exceeded\<close>:
  \<open>setItem\<close> throws; \<open>now\<close> is \<open>new Date().toISOString()\<close>.
\<close>

record host =
  has_window :: bool
  has_fetch :: bool
  navigator_userAgent :: "string option"
  location_href :: string
  now :: string
  storage_blocked :: bool
  quota_exceeded :: bool

text \<open>
  The text stored under \<open>localStorageKey\<close>, seen through \<open>JSON.parse\<close>: the empty string
  (falsy), a text that does not parse, a JSON number, boolean, null or object (it parses,
  and has none of \<open>push\<close>, \<open>filter\<close>, \<open>slice\<close>), a JSON string (it has \<open>slice\<close>, and
  neither \<open>push\<close> nor \<open>filter\<close>), or an array of entries.
\<close>

datatype json_text = EmptyText | Malformed | NonArray | JsonString string | LogArray "LogEntry list"

datatype json_parsed = NotAnArray | StringValue string | EntryArray "LogEntry list"

datatype js_error = SecurityError | SyntaxError | TypeError | QuotaExceededError | ReferenceError

datatype fetch_result = ResponseOk | ResponseNotOk | TransportError

text \<open>
  The state. The class declares \<open>logHistory\<close> as an array of entries; the one statement
  that can store something else there is the assignment in \<open>loadFromLocalStorage\<close>, so the
  type of the history is a parameter, and a \<open>logger\<close> is a state whose history is an
  array.
\<close>

record 'h logger_of =
  logHistory :: 'h
  pendingLogs :: "LogEntry list"
  inflight :: "LogEntry list list"
  localStorage_item :: "json_text option"

type_synonym logger = "LogEntry list logger_of"

definition getItem :: "host \<Rightarrow> 'h logger_of \<Rightarrow> js_error + json_text option" where
  "getItem h st = (if storage_blocked h then Inl SecurityError else Inr (localStorage_item st))"

definition setItem :: "host \<Rightarrow> json_text \<Rightarrow> 'h logger_of \<Rightarrow> js_error + 'h logger_of" where
  "setItem h v st =
     (if storage_blocked h then Inl SecurityError
      else if quota_exceeded h then Inl QuotaExceededError
      else Inr (st\<lparr>localStorage_item := Some v\<rparr>))"

definition removeItem :: "host \<Rightarrow> 'h logger_of \<Rightarrow> js_error + 'h logger_of" where
  "removeItem h st =
     (if storage_blocked h then Inl SecurityError else Inr (st\<lparr>localStorage_item := None\<rparr>))"

definition JSON_parse :: "json_text \<Rightarrow> js_error + json_parsed" where
  "JSON_parse t =
     (case t of
        EmptyText \<Rightarrow> Inl SyntaxError
      | Malformed \<Rightarrow> Inl SyntaxError
      | NonArray \<Rightarrow> Inr NotAnArray
      | JsonString s \<Rightarrow> Inr (StringValue s)
      | LogArray xs \<Rightarrow> Inr (EntryArray xs))"

text \<open>
  An entry can be written when its \<open>data\<close> is not rejected. \<open>json_entry\<close> is what
  \<open>JSON.parse (JSON.stringify e)\<close> is for such an entry: an undefined field is left out
  and is undefined again, and \<open>data\<close> is what its text parses to, which is no instance of
  \<open>Error\<close>. (For rejected data there is no text; \<open>JSON_stringify\<close> asks first.)
\<close>

definition serialisable :: "LogEntry \<Rightarrow> bool" where
  "serialisable e =
     (case data e of None \<Rightarrow> True | Some v \<Rightarrow> serialised_as v \<noteq> Rejected)"

definition json_entry :: "LogEntry \<Rightarrow> LogEntry" where
  "json_entry e =
     e\<lparr>data := (case data e of
                  None \<Rightarrow> None
                | Some v \<Rightarrow>
                    (case serialised_as v of
                       Text t s \<Rightarrow> Some (JsValue False s (Text t s))
                     | _ \<Rightarrow> None))\<rparr>"

definition JSON_stringify :: "json_parsed \<Rightarrow> js_error + json_text" where
  "JSON_stringify v =
     (case v of
        NotAnArray \<Rightarrow> Inr NonArray
      | StringValue s \<Rightarrow> Inr (JsonString s)
      | EntryArray xs \<Rightarrow>
          if list_all serialisable xs then Inr (LogArray (map json_entry xs)) else Inl TypeError)"

subsection \<open>In-memory history and persistence\<close>

text \<open>The object literal \<open>enrichedEntry\<close> of \<open>persistToLocalStorage\<close>.\<close>

definition enrichedEntry :: "host \<Rightarrow> LogEntry \<Rightarrow> LogEntry" where
  "enrichedEntry h entry =
     entry\<lparr>userAgent := navigator_userAgent h,
           url := (if has_window h then Some (location_href h) else None),
           stack := (case data entry of
                       None \<Rightarrow> None
                     | Some v \<Rightarrow> if instanceof_Error v then stack_of v else None)\<rparr>"

text \<open>\<open>stored ? JSON.parse(stored) : []\<close>\<close>

definition parse_or_empty :: "json_text option \<Rightarrow> js_error + json_parsed" where
  "parse_or_empty stored =
     (case stored of
        None \<Rightarrow> Inr (EntryArray [])
      | Some EmptyText \<Rightarrow> Inr (EntryArray [])
      | Some t \<Rightarrow> JSON_parse t)"

text \<open>The body of the \<open>try\<close> block of \<open>persistToLocalStorage\<close>.\<close>

definition persist_try :: "host \<Rightarrow> LogEntry \<Rightarrow> 'h logger_of \<Rightarrow> js_error + 'h logger_of" where
  "persist_try h entry st =
     (case getItem h st of
        Inl err \<Rightarrow> Inl err
      | Inr stored \<Rightarrow>
          (case parse_or_empty stored of
             Inl err \<Rightarrow> Inl err
           | Inr NotAnArray \<Rightarrow> Inl TypeError
           | Inr (StringValue s) \<Rightarrow> Inl TypeError
           | Inr (EntryArray logs) \<Rightarrow>
               (let pushed = logs @ [enrichedEntry h entry];
                    limited = (if length pushed > maxLocalStorageSize
                               then slice_from (- int maxLocalStorageSize) pushed
                               else pushed)
                in case JSON_stringify (EntryArray limited) of
                     Inl err \<Rightarrow> Inl err
                   | Inr text \<Rightarrow> setItem h text st)))"

definition persistToLocalStorage :: "host \<Rightarrow> LogEntry \<Rightarrow> 'h logger_of \<Rightarrow> 'h logger_of" where
  "persistToLocalStorage h entry st =
     (if \<not> has_window h then st
      else case persist_try h entry st of Inl err \<Rightarrow> st | Inr st' \<Rightarrow> st')"

text \<open>
  What the constructor leaves behind: a logger, or a state whose \<open>logHistory\<close> is a string.
  \<open>loadFromLocalStorage\<close> assigns \<open>logs.slice(-this.maxHistorySize)\<close>, and a stored JSON
  string has a \<open>slice\<close> too.
\<close>

datatype constructed = Intact logger | StringHistory "string logger_of"

definition load_try :: "host \<Rightarrow> logger \<Rightarrow> js_error + constructed" where
  "load_try h st =
     (case getItem h st of
        Inl err \<Rightarrow> Inl err
      | Inr None \<Rightarrow> Inr (Intact st)
      | Inr (Some EmptyText) \<Rightarrow> Inr (Intact st)
      | Inr (Some t) \<Rightarrow>
          (case JSON_parse t of
             Inl err \<Rightarrow> Inl err
           | Inr NotAnArray \<Rightarrow> Inl TypeError
           | Inr (StringValue s) \<Rightarrow>
               Inr (StringHistory
                 \<lparr>logHistory = slice_from (- int maxHistorySize) s,
                  pendingLogs = pendingLogs st, inflight = inflight st,
                  localStorage_item = localStorage_item st\<rparr>)
           | Inr (EntryArray logs) \<Rightarrow>
               Inr (Intact (st\<lparr>logHistory := slice_from (- int maxHistorySize) logs\<rparr>))))"

definition loadFromLocalStorage :: "host \<Rightarrow> logger \<Rightarrow> constructed" where
  "loadFromLocalStorage h st =
     (if \<not> has_window h then Intact st
      else case load_try h st of Inl err \<Rightarrow> Intact st | Inr c \<Rightarrow> c)"

subsection \<open>The pending queue\<close>

text \<open>
  \<open>flushPendingLogs\<close> is an \<open>async\<close> function with one \<open>await\<close>. Its caller runs it up
  to that \<open>await\<close>: the empty check, the snapshot \<open>logsToSend\<close>, the clearing of
  \<open>pendingLogs\<close>, and the \<open>try\<close> block as far as the call of \<open>fetch\<close>.

  \<open>build_request\<close> is the evaluation of that call: it needs the global \<open>fetch\<close>, and its
  body is \<open>JSON.stringify\<close> of the batch. \<open>flush_try\<close> is the \<open>try\<close> statement up to the
  \<open>await\<close>, on the state with the pending list cleared: when the request cannot be built
  the \<open>catch\<close> block runs at once and puts the batch back; otherwise the request is sent
  and, with its \<open>logsToSend\<close>, appended to \<open>inflight\<close>.

  \<open>flushPendingLogs_resume\<close> is the rest of the body, run when the request is settled, on
  the state of that later moment: a response that is ok, a response that is not, or a
  rejection caught by the \<open>catch\<close> block.
\<close>

definition build_request :: "host \<Rightarrow> LogEntry list \<Rightarrow> js_error + unit" where
  "build_request h logsToSend =
     (if \<not> has_fetch h then Inl ReferenceError
      else case JSON_stringify (EntryArray logsToSend) of
             Inl err \<Rightarrow> Inl err
           | Inr body \<Rightarrow> Inr ())"

definition flush_try :: "host \<Rightarrow> LogEntry list \<Rightarrow> 'h logger_of \<Rightarrow> 'h logger_of" where
  "flush_try h logsToSend st =
     (case build_request h logsToSend of
        Inl err \<Rightarrow> st\<lparr>pendingLogs := slice_upto 100 (logsToSend @ pendingLogs st)\<rparr>
      | Inr _ \<Rightarrow> st\<lparr>inflight := inflight st @ [logsToSend]\<rparr>)"

definition flushPendingLogs :: "host \<Rightarrow> 'h logger_of \<Rightarrow> 'h logger_of" where
  "flushPendingLogs h st =
     (if length (pendingLogs st) = 0 then st
      else (let logsToSend = pendingLogs st
            in flush_try h logsToSend (st\<lparr>pendingLogs := []\<rparr>)))"

definition flushPendingLogs_resume ::
  "fetch_result \<Rightarrow> LogEntry list \<Rightarrow> 'h logger_of \<Rightarrow> 'h logger_of" where
  "flushPendingLogs_resume r logsToSend st =
     (case r of
        ResponseOk \<Rightarrow> st
      | ResponseNotOk \<Rightarrow> st\<lparr>pendingLogs := slice_upto 100 (logsToSend @ pendingLogs st)\<rparr>
      | TransportError \<Rightarrow> st\<lparr>pendingLogs := slice_upto 100 (logsToSend @ pendingLogs st)\<rparr>)"

definition addToPendingLogs :: "host \<Rightarrow> LogEntry \<Rightarrow> 'h logger_of \<Rightarrow> 'h logger_of" where
  "addToPendingLogs h entry st =
     (let st1 = st\<lparr>pendingLogs := pendingLogs st @ [entry]\<rparr>
      in if length (pendingLogs st1) \<ge> 10 then flushPendingLogs h st1 else st1)"

definition addToHistory :: "host \<Rightarrow> LogEntry \<Rightarrow> logger \<Rightarrow> logger" where
  "addToHistory h entry st =
     (let pushed = logHistory st @ [entry];
          st1 = st\<lparr>logHistory := (if length pushed > maxHistorySize then shift pushed else pushed)\<rparr>
      in if level entry = Error \<or> level entry = Warn
         then addToPendingLogs h entry (persistToLocalStorage h entry st1)
         else st1)"

text \<open>The entry that \<open>log\<close> builds; the optional fields it does not set are undefined.\<close>

definition new_entry ::
  "host \<Rightarrow> LogLevel \<Rightarrow> string \<Rightarrow> js_value option \<Rightarrow> string option \<Rightarrow> string option \<Rightarrow> LogEntry" where
  "new_entry h lv msg d c a =
     \<lparr>level = lv, message = msg, timestamp = now h, data = d, component = c, action = a,
      userAgent = None, url = None, stack = None\<rparr>"

definition log ::
  "host \<Rightarrow> LogLevel \<Rightarrow> string \<Rightarrow> js_value option \<Rightarrow> string option \<Rightarrow> string option
     \<Rightarrow> logger \<Rightarrow> logger" where
  "log h lv msg d c a st = addToHistory h (new_entry h lv msg d c a) st"

text \<open>
  On a state whose \<open>logHistory\<close> is a string the first statement of \<open>addToHistory\<close>,
  \<open>this.logHistory.push(entry)\<close>, throws, and nothing catches it: the call of the level
  method throws and has changed nothing.
\<close>

definition log_on ::
  "host \<Rightarrow> LogLevel \<Rightarrow> string \<Rightarrow> js_value option \<Rightarrow> string option \<Rightarrow> string option
     \<Rightarrow> constructed \<Rightarrow> js_error + constructed" where
  "log_on h lv msg d c a obj =
     (case obj of
        Intact st \<Rightarrow> Inr (Intact (log h lv msg d c a st))
      | StringHistory st \<Rightarrow> Inl TypeError)"

subsection \<open>Reading back\<close>

text \<open>
  \<open>getHistory(level?, limit?)\<close>: every level is a non-empty string, so \<open>if (level)\<close> asks
  whether a level was given; \<open>if (limit)\<close> is false for an absent limit and for 0.
  The limit counts entries and is an integer here.
\<close>

definition getHistory :: "LogLevel option \<Rightarrow> int option \<Rightarrow> logger \<Rightarrow> LogEntry list" where
  "getHistory lv limit st =
     (let filtered = (case lv of
                        None \<Rightarrow> logHistory st
                      | Some l \<Rightarrow> filter (\<lambda>entry. level entry = l) (logHistory st))
      in case limit of
           None \<Rightarrow> filtered
         | Some n \<Rightarrow> if n \<noteq> 0 then slice_from (- n) filtered else filtered)"

definition clearHistory :: "logger \<Rightarrow> logger" where
  "clearHistory st = st\<lparr>logHistory := []\<rparr>"

definition getPersistedLogs_try ::
  "host \<Rightarrow> LogLevel option \<Rightarrow> 'h logger_of \<Rightarrow> js_error + json_parsed" where
  "getPersistedLogs_try h lv st =
     (case getItem h st of
        Inl err \<Rightarrow> Inl err
      | Inr None \<Rightarrow> Inr (EntryArray [])
      | Inr (Some EmptyText) \<Rightarrow> Inr (EntryArray [])
      | Inr (Some t) \<Rightarrow>
          (case JSON_parse t of
             Inl err \<Rightarrow> Inl err
           | Inr logs \<Rightarrow>
               (case lv of
                  None \<Rightarrow> Inr logs
                | Some l \<Rightarrow>
                    (case logs of
                       NotAnArray \<Rightarrow> Inl TypeError
                     | StringValue s \<Rightarrow> Inl TypeError
                     | EntryArray xs \<Rightarrow> Inr (EntryArray (filter (\<lambda>log. level log = l) xs))))))"

definition getPersistedLogs :: "host \<Rightarrow> LogLevel option \<Rightarrow> 'h logger_of \<Rightarrow> json_parsed" where
  "getPersistedLogs h lv st =
     (if \<not> has_window h then EntryArray []
      else case getPersistedLogs_try h lv st of Inl err \<Rightarrow> EntryArray [] | Inr logs \<Rightarrow> logs)"

definition clearPersistedLogs :: "host \<Rightarrow> 'h logger_of \<Rightarrow> 'h logger_of" where
  "clearPersistedLogs h st =
     (if \<not> has_window h then st
      else case removeItem h st of Inl err \<Rightarrow> st | Inr st' \<Rightarrow> st')"

text \<open>
  \<open>exportPersistedLogs\<close> and \<open>downloadPersistedLogs\<close> call \<open>JSON.stringify\<close> outside any
  \<open>try\<close> block; \<open>downloadPersistedLogs\<close> then hands a file to the browser, its name and
  its content, or nothing where there is no window.
\<close>

definition exportPersistedLogs ::
  "host \<Rightarrow> LogLevel option \<Rightarrow> 'h logger_of \<Rightarrow> js_error + json_text" where
  "exportPersistedLogs h lv st = JSON_stringify (getPersistedLogs h lv st)"

definition downloadPersistedLogs ::
  "host \<Rightarrow> LogLevel option \<Rightarrow> 'h logger_of \<Rightarrow> js_error + (string \<times> json_text) option" where
  "downloadPersistedLogs h lv st =
     (if \<not> has_window h then Inr None
      else case JSON_stringify (getPersistedLogs h lv st) of
             Inl err \<Rightarrow> Inl err
           | Inr json \<Rightarrow>
               Inr (Some (''frontend-logs-'' @ takeWhile (\<lambda>c. c \<noteq> CHR ''T'') (now h) @ ''.json'',
                          json)))"

subsection \<open>Construction and runs\<close>

definition new_logger :: "host \<Rightarrow> json_text option \<Rightarrow> constructed" where
  "new_logger h stored =
     loadFromLocalStorage h
       \<lparr>logHistory = [], pendingLogs = [], inflight = [], localStorage_item = stored\<rparr>"

text \<open>
  What can happen to a logger: a call of one of the level methods, a call of
  \<open>flushPendingLogs\<close> (the timer, \<open>beforeunload\<close>, \<open>sendLogsToBackend\<close>), and the settling
  of the request at a position of \<open>inflight\<close>.
\<close>

datatype event =
    LogCall host LogLevel string "js_value option" "string option" "string option"
  | Flush host
  | Settle nat fetch_result

definition settle :: "nat \<Rightarrow> fetch_result \<Rightarrow> 'h logger_of \<Rightarrow> 'h logger_of" where
  "settle i r st =
     (if i < length (inflight st)
      then flushPendingLogs_resume r (inflight st ! i)
             (st\<lparr>inflight := take i (inflight st) @ drop (Suc i) (inflight st)\<rparr>)
      else st)"

fun step :: "logger \<Rightarrow> event \<Rightarrow> logger" where
  "step st (LogCall h lv msg d c a) = log h lv msg d c a st"
| "step st (Flush h) = flushPendingLogs h st"
| "step st (Settle i r) = settle i r st"

definition run :: "logger \<Rightarrow> event list \<Rightarrow> logger" where
  "run st evs = foldl step st evs"

text \<open>
  The same on what the constructor left behind. A call of a level method that throws has
  changed nothing, and the run goes on.
\<close>

fun step_on :: "constructed \<Rightarrow> event \<Rightarrow> constructed" where
  "step_on (Intact st) ev = Intact (step st ev)"
| "step_on (StringHistory st) (LogCall h lv msg d c a) =
     (case log_on h lv msg d c a (StringHistory st) of
        Inl err \<Rightarrow> StringHistory st
      | Inr obj \<Rightarrow> obj)"
| "step_on (StringHistory st) (Flush h) = StringHistory (flushPendingLogs h st)"
| "step_on (StringHistory st) (Settle i r) = StringHistory (settle i r st)"

definition run_on :: "constructed \<Rightarrow> event list \<Rightarrow> constructed" where
  "run_on obj evs = foldl step_on obj evs"

subsection \<open>Vocabulary of the properties\<close>

text \<open>The \<open>n\<close> most recently appended elements of a list that grows at its end.\<close>

definition most_recent :: "nat \<Rightarrow> 'a list \<Rightarrow> 'a list" where
  "most_recent n xs = drop (length xs - n) xs"

text \<open>
  The first statements of \<open>addToHistory\<close>: the push onto \<open>logHistory\<close> and the \<open>shift\<close>
  when the history has grown beyond \<open>maxHistorySize\<close>.
\<close>

definition pushed_history :: "LogEntry \<Rightarrow> logger \<Rightarrow> logger" where
  "pushed_history entry st =
     st\<lparr>logHistory := (if length (logHistory st @ [entry]) > maxHistorySize
                        then shift (logHistory st @ [entry]) else logHistory st @ [entry])\<rparr>"

text \<open>Entries enqueued one after the other, with nothing else happening in between.\<close>

definition enqueue_all :: "host \<Rightarrow> 'h logger_of \<Rightarrow> LogEntry list \<Rightarrow> 'h logger_of" where
  "enqueue_all h st entries = foldl (\<lambda>s entry. addToPendingLogs h entry s) st entries"

text \<open>
  The entries that the calls of a run create, in the order of the calls, and, for the
  calls at level warn or error whose data can be written, what \<open>persistToLocalStorage\<close>
  writes for them.
\<close>

fun logged :: "event list \<Rightarrow> LogEntry list" where
  "logged [] = []"
| "logged (LogCall h lv msg d c a # evs) = new_entry h lv msg d c a # logged evs"
| "logged (Flush h # evs) = logged evs"
| "logged (Settle i r # evs) = logged evs"

fun persisted :: "event list \<Rightarrow> LogEntry list" where
  "persisted [] = []"
| "persisted (LogCall h lv msg d c a # evs) =
     (if (lv = Error \<or> lv = Warn) \<and> serialisable (new_entry h lv msg d c a)
      then json_entry (enrichedEntry h (new_entry h lv msg d c a)) # persisted evs
      else persisted evs)"
| "persisted (Flush h # evs) = persisted evs"
| "persisted (Settle i r # evs) = persisted evs"

text \<open>
  A host whose storage can be read and written, and a run all of whose calls see such a
  host.
\<close>

definition storage_works :: "host \<Rightarrow> bool" where
  "storage_works h = (has_window h \<and> \<not> storage_blocked h \<and> \<not> quota_exceeded h)"

fun hosts_work :: "event list \<Rightarrow> bool" where
  "hosts_work [] = True"
| "hosts_work (LogCall h lv msg d c a # evs) = (storage_works h \<and> hosts_work evs)"
| "hosts_work (Flush h # evs) = hosts_work evs"
| "hosts_work (Settle i r # evs) = hosts_work evs"

text \<open>
  The entries in the store, and a store that \<open>persistToLocalStorage\<close> can extend: no item,
  an empty text, or an array of entries as \<open>JSON.parse\<close> returns them.
\<close>

definition stored_entries :: "'h logger_of \<Rightarrow> LogEntry list" where
  "stored_entries st = (case localStorage_item st of Some (LogArray xs) \<Rightarrow> xs | _ \<Rightarrow> [])"

definition store_usable :: "'h logger_of \<Rightarrow> bool" where
  "store_usable st =
     (case localStorage_item st of
        None \<Rightarrow> True
      | Some EmptyText \<Rightarrow> True
      | Some (LogArray xs) \<Rightarrow> list_all (\<lambda>e. json_entry e = e) xs
      | Some _ \<Rightarrow> False)"

text \<open>The length of \<open>logHistory\<close>, of the array or of the string.\<close>

definition history_length :: "constructed \<Rightarrow> nat" where
  "history_length obj =
     (case obj of Intact st \<Rightarrow> length (logHistory st) | StringHistory st \<Rightarrow> length (logHistory st))"


text \<open>Entries, values, loggers and hosts to evaluate the operations on.\<close>

definition sample_entry :: "LogLevel \<Rightarrow> string \<Rightarrow> LogEntry" where
  "sample_entry lv msg =
     \<lparr>level = lv, message = msg, timestamp = ''2025-01-01T00:00:00.000Z'', data = None,
      component = None, action = None, userAgent = None, url = None, stack = None\<rparr>"



definition cyclic_value :: js_value where
  "cyclic_value = JsValue False None Rejected"

definition sample_logger :: "LogEntry list \<Rightarrow> LogEntry list \<Rightarrow> logger" where
  "sample_logger hist pend =
     \<lparr>logHistory = hist, pendingLogs = pend, inflight = [], localStorage_item = None\<rparr>"

definition sample_host :: host where
  "sample_host =
     \<lparr>has_window = True, has_fetch = True, navigator_userAgent = Some ''Mozilla/5.0'',
      location_href = ''https://app.example/trails'', now = ''2025-01-02T03:04:05.000Z'',
      storage_blocked = False, quota_exceeded = False\<rparr>"

definition server_host :: host where
  "server_host =
     \<lparr>has_window = False, has_fetch = True, navigator_userAgent = None, location_href = [],
      now = ''2025-01-02T03:04:05.000Z'', storage_blocked = True, quota_exceeded = False\<rparr>"


section \<open>Properties\<close>

subsection \<open>Lists\<close>

lemma most_recent_length: "length (most_recent n xs) \<le> n"
  by (simp add: most_recent_def)

lemma most_recent_all: "length xs \<le> n \<Longrightarrow> most_recent n xs = xs"
  by (simp add: most_recent_def)

lemma most_recent_append: "most_recent n (most_recent n xs @ ys) = most_recent n (xs @ ys)"
  by (cases "length xs \<le> n") (simp_all add: most_recent_def add.commute)

lemma most_recent_map: "most_recent n (map f xs) = map f (most_recent n xs)"
  by (simp add: most_recent_def drop_map)

lemma shift_most_recent:
  assumes "length xs \<le> n"
  shows "(if length (xs @ [x]) > n then shift (xs @ [x]) else xs @ [x]) = most_recent n (xs @ [x])"
proof (cases "length xs < n")
  case True
  then show ?thesis by (simp add: most_recent_def)
next
  case False
  with assms have full: "length xs = n" by simp
  have "shift (xs @ [x]) = drop 1 (xs @ [x])"
    by (cases xs) (simp_all add: shift_def)
  with full show ?thesis by (simp add: most_recent_def)
qed

lemma most_recent_snoc: "0 < n \<Longrightarrow> \<exists>ys. most_recent n (xs @ [x]) = ys @ [x]"
proof -
  assume "0 < n"
  then have "length (xs @ [x]) - n \<le> length xs" by simp
  then have "most_recent n (xs @ [x]) = drop (length (xs @ [x]) - n) xs @ [x]"
    unfolding most_recent_def by (simp del: length_append)
  then show ?thesis by blast
qed

lemma most_recent_subset: "set (most_recent n xs) \<subseteq> set xs"
  by (simp add: most_recent_def set_drop_subset)

lemma storage_limit:
  "(if length xs > maxLocalStorageSize then slice_from (- int maxLocalStorageSize) xs else xs)
     = most_recent 500 xs"
  by (simp add: slice_from_def most_recent_def maxLocalStorageSize_def)

subsection \<open>Building the request\<close>

lemma build_request_cases:
  "build_request h batch = Inr () \<or> (\<exists>err. build_request h batch = Inl err)"
  by (cases "build_request h batch") auto

lemma build_request_ok:
  "build_request h batch = Inr () \<longleftrightarrow> has_fetch h \<and> list_all serialisable batch"
  by (simp add: build_request_def JSON_stringify_def)

lemma build_request_snoc_fails:
  "build_request h batch = Inl err \<Longrightarrow> \<exists>err'. build_request h (batch @ [e]) = Inl err'"
  using build_request_cases [of h "batch @ [e]"] build_request_ok [of h batch]
    build_request_ok [of h "batch @ [e]"]
  by auto

lemma flush_try_built:
  "build_request h batch = Inr () \<Longrightarrow>
   flush_try h batch st = st\<lparr>inflight := inflight st @ [batch]\<rparr>"
  by (simp add: flush_try_def)

lemma flush_try_failed:
  "build_request h batch = Inl err \<Longrightarrow>
   flush_try h batch st = st\<lparr>pendingLogs := take 100 (batch @ pendingLogs st)\<rparr>"
  by (simp add: flush_try_def slice_upto_def)

subsection \<open>What each operation leaves alone\<close>

lemma persist_frame:
  "logHistory (persistToLocalStorage h e st) = logHistory st"
  "pendingLogs (persistToLocalStorage h e st) = pendingLogs st"
  "inflight (persistToLocalStorage h e st) = inflight st"
  by (auto simp: persistToLocalStorage_def persist_try_def getItem_def setItem_def Let_def
      split: sum.splits json_parsed.splits)

lemma flush_try_frame:
  "logHistory (flush_try h batch st) = logHistory st"
  "localStorage_item (flush_try h batch st) = localStorage_item st"
  by (simp_all add: flush_try_def split: sum.splits)

lemma flush_frame:
  "logHistory (flushPendingLogs h st) = logHistory st"
  "localStorage_item (flushPendingLogs h st) = localStorage_item st"
  by (simp_all add: flushPendingLogs_def flush_try_frame)

lemma enqueue_frame:
  "logHistory (addToPendingLogs h e st) = logHistory st"
  "localStorage_item (addToPendingLogs h e st) = localStorage_item st"
  by (simp_all add: addToPendingLogs_def Let_def flush_frame)

lemma resume_frame:
  "logHistory (flushPendingLogs_resume r batch st) = logHistory st"
  "localStorage_item (flushPendingLogs_resume r batch st) = localStorage_item st"
  "inflight (flushPendingLogs_resume r batch st) = inflight st"
  by (cases r; simp add: flushPendingLogs_resume_def)+

lemma settle_frame:
  "logHistory (settle i r st) = logHistory st"
  "localStorage_item (settle i r st) = localStorage_item st"
  by (simp_all add: settle_def resume_frame)

lemma pushed_history_frame:
  "pendingLogs (pushed_history e st) = pendingLogs st"
  "inflight (pushed_history e st) = inflight st"
  "localStorage_item (pushed_history e st) = localStorage_item st"
  by (simp_all add: pushed_history_def)

lemma stored_entries_cong:
  "localStorage_item st' = localStorage_item st \<Longrightarrow> stored_entries st' = stored_entries st"
  by (simp add: stored_entries_def)

lemma store_usable_cong:
  "localStorage_item st' = localStorage_item st \<Longrightarrow> store_usable st' = store_usable st"
  by (simp add: store_usable_def)

subsection \<open>Enqueueing and starting a flush\<close>

lemma flush_nonempty:
  "pendingLogs st \<noteq> [] \<Longrightarrow>
   flushPendingLogs h st = flush_try h (pendingLogs st) (st\<lparr>pendingLogs := []\<rparr>)"
  by (simp add: flushPendingLogs_def)

lemma flush_built:
  "pendingLogs st \<noteq> [] \<Longrightarrow> build_request h (pendingLogs st) = Inr () \<Longrightarrow>
   flushPendingLogs h st = st\<lparr>pendingLogs := [], inflight := inflight st @ [pendingLogs st]\<rparr>"
  by (simp add: flush_nonempty flush_try_built)

lemma flush_failed:
  "pendingLogs st \<noteq> [] \<Longrightarrow> build_request h (pendingLogs st) = Inl err \<Longrightarrow>
   flushPendingLogs h st = st\<lparr>pendingLogs := take 100 (pendingLogs st)\<rparr>"
  by (simp add: flush_nonempty flush_try_failed)

lemma flush_empty: "pendingLogs st = [] \<Longrightarrow> flushPendingLogs h st = st"
  by (simp add: flushPendingLogs_def)

lemma pending_settle_ok: "pendingLogs (settle i ResponseOk st) = pendingLogs st"
  by (simp add: settle_def flushPendingLogs_resume_def)

lemma enqueue_all_Nil: "enqueue_all h st [] = st"
  by (simp add: enqueue_all_def)

lemma enqueue_all_Cons: "enqueue_all h st (e # es) = enqueue_all h (addToPendingLogs h e st) es"
  by (simp add: enqueue_all_def)

lemma enqueue_all_snoc: "enqueue_all h st (es @ [e]) = addToPendingLogs h e (enqueue_all h st es)"
  by (simp add: enqueue_all_def)

lemma enqueue_below:
  "length (pendingLogs st) + length es < 10 \<Longrightarrow>
   enqueue_all h st es = st\<lparr>pendingLogs := pendingLogs st @ es\<rparr>"
proof (induction es arbitrary: st)
  case Nil
  then show ?case by (simp add: enqueue_all_Nil)
next
  case (Cons e es)
  have one: "addToPendingLogs h e st = st\<lparr>pendingLogs := pendingLogs st @ [e]\<rparr>"
    using Cons.prems by (simp add: addToPendingLogs_def)
  show ?case
    using Cons.prems by (simp add: enqueue_all_Cons one Cons.IH)
qed

lemma enqueue_reaching:
  assumes "length (pendingLogs st) + length es = 10" and "es \<noteq> []"
  shows "enqueue_all h st es = flush_try h (pendingLogs st @ es) (st\<lparr>pendingLogs := []\<rparr>)"
proof -
  obtain bs b where es: "es = bs @ [b]"
    using assms(2) by (metis rev_exhaust)
  have below: "length (pendingLogs st) + length bs < 10"
    using assms(1) es by simp
  have "enqueue_all h st es = addToPendingLogs h b (st\<lparr>pendingLogs := pendingLogs st @ bs\<rparr>)"
    by (simp add: es enqueue_all_snoc enqueue_below [OF below])
  also have "\<dots> = flush_try h (pendingLogs st @ es) (st\<lparr>pendingLogs := []\<rparr>)"
    using assms(1) es by (simp add: addToPendingLogs_def flushPendingLogs_def)
  finally show ?thesis .
qed

lemma enqueue_cases:
  "(length (pendingLogs st @ [e]) < 10 \<longrightarrow>
      pendingLogs (addToPendingLogs h e st) = pendingLogs st @ [e]
      \<and> inflight (addToPendingLogs h e st) = inflight st)
   \<and> (length (pendingLogs st @ [e]) \<ge> 10 \<and> build_request h (pendingLogs st @ [e]) = Inr () \<longrightarrow>
      pendingLogs (addToPendingLogs h e st) = []
      \<and> inflight (addToPendingLogs h e st) = inflight st @ [pendingLogs st @ [e]])
   \<and> (length (pendingLogs st @ [e]) \<ge> 10 \<and> (\<exists>err. build_request h (pendingLogs st @ [e]) = Inl err) \<longrightarrow>
      pendingLogs (addToPendingLogs h e st) = take 100 (pendingLogs st @ [e])
      \<and> inflight (addToPendingLogs h e st) = inflight st)"
  by (auto simp: addToPendingLogs_def Let_def flushPendingLogs_def flush_try_def slice_upto_def)

text \<open>
  A whole attempt: a flush of a non-empty pending list whose request is built, then fewer
  than 10 enqueues (so none of them starts a flush), then the settling of that request.
\<close>

lemma attempt_settled:
  assumes "pendingLogs st \<noteq> []" and "build_request h (pendingLogs st) = Inr ()"
    and "length during < 10"
  shows "settle (length (inflight st)) r (enqueue_all h (flushPendingLogs h st) during)
           = flushPendingLogs_resume r (pendingLogs st) (st\<lparr>pendingLogs := during\<rparr>)"
proof -
  let ?started = "st\<lparr>pendingLogs := [], inflight := inflight st @ [pendingLogs st]\<rparr>"
  have "enqueue_all h (flushPendingLogs h st) during
      = ?started\<lparr>pendingLogs := pendingLogs ?started @ during\<rparr>"
    unfolding flush_built [OF assms(1,2)] using assms(3) by (intro enqueue_below) simp
  then have "enqueue_all h (flushPendingLogs h st) during
      = st\<lparr>pendingLogs := during, inflight := inflight st @ [pendingLogs st]\<rparr>"
    by simp
  then show ?thesis
    by (simp add: settle_def)
qed

subsection \<open>A failed delivery\<close>

lemma resume_failed:
  "r \<noteq> ResponseOk \<Longrightarrow>
   flushPendingLogs_resume r batch st = st\<lparr>pendingLogs := take 100 (batch @ pendingLogs st)\<rparr>"
  by (cases r) (simp_all add: flushPendingLogs_resume_def slice_upto_def)


text \<open>
  Claim C1, as the code has it. When a delivery fails (a response that is not ok, a
  rejected request, or a request that cannot be built) and the failed batch followed by
  the current pending list has more than 100 entries, the new pending list is the first
  100 entries of that combined list: the batch comes first, and what lies beyond
  position 100 of the combined list is dropped.
\<close>

theorem requeue_keeps_first_100:
  assumes "r \<noteq> ResponseOk" and "length (batch @ pendingLogs st) > 100"
  shows "pendingLogs (flushPendingLogs_resume r batch st) = take 100 (batch @ pendingLogs st)
       \<and> length (pendingLogs (flushPendingLogs_resume r batch st)) = 100
       \<and> pendingLogs (flushPendingLogs_resume r batch st) @ drop 100 (batch @ pendingLogs st)
           = batch @ pendingLogs st
       \<and> ((\<exists>err. build_request h (pendingLogs before) = Inl err)
            \<and> length (pendingLogs before) > 100 \<longrightarrow>
            pendingLogs (flushPendingLogs h before) = take 100 (pendingLogs before)
            \<and> length (pendingLogs (flushPendingLogs h before)) = 100)"
proof -
  have sync: "pendingLogs (flushPendingLogs h before) = take 100 (pendingLogs before)
            \<and> length (pendingLogs (flushPendingLogs h before)) = 100"
    if "\<exists>err. build_request h (pendingLogs before) = Inl err"
      and "length (pendingLogs before) > 100"
  proof -
    from that(2) have "pendingLogs before \<noteq> []" by auto
    with that show ?thesis by (auto simp: flush_failed)
  qed
  show ?thesis
    using assms sync
    by (simp add: resume_failed del: take_append drop_append length_append)
qed

theorem requeue_keeps_first_100_witness:
  "TransportError \<noteq> ResponseOk
   \<and> length (replicate 100 (sample_entry Error ''old'')
        @ pendingLogs (sample_logger [] [sample_entry Warn ''new''])) > 100
   \<and> pendingLogs (flushPendingLogs_resume TransportError (replicate 100 (sample_entry Error ''old''))
        (sample_logger [] [sample_entry Warn ''new'']))
       = replicate 100 (sample_entry Error ''old'')"
proof -
  let ?S = "sample_logger [] [sample_entry Warn ''new'']"
  let ?B = "replicate 100 (sample_entry Error ''old'')"
  have r: "TransportError \<noteq> ResponseOk" by simp
  have l: "length (?B @ pendingLogs ?S) > 100" by (simp add: sample_logger_def)
  have "pendingLogs (flushPendingLogs_resume TransportError ?B ?S) = take 100 (?B @ pendingLogs ?S)"
    by (rule requeue_keeps_first_100 [OF r l, THEN conjunct1])
  then have "pendingLogs (flushPendingLogs_resume TransportError ?B ?S) = ?B"
    by simp
  with r l show ?thesis by blast
qed

text \<open>
  Claim C1 as the specification words it (the most recent 100 entries are kept) fails: a
  failed batch of 100 old entries with one newer entry pending leaves the 100 old entries,
  and the newer one is dropped.
\<close>

theorem requeue_most_recent_counterexample:
  "length (replicate 100 (sample_entry Error ''old'')
        @ pendingLogs (sample_logger [] [sample_entry Warn ''new''])) > 100
   \<and> pendingLogs (flushPendingLogs_resume ResponseNotOk (replicate 100 (sample_entry Error ''old''))
        (sample_logger [] [sample_entry Warn ''new'']))
     \<noteq> most_recent 100 (replicate 100 (sample_entry Error ''old'')
          @ pendingLogs (sample_logger [] [sample_entry Warn ''new'']))"
proof -
  let ?old = "sample_entry Error ''old''" and ?new = "sample_entry Warn ''new''"
  have ne: "?old \<noteq> ?new" by (simp add: sample_entry_def)
  have a: "take 100 (replicate 100 ?old @ [?new]) = replicate 100 ?old" by simp
  have b: "most_recent 100 (replicate 100 ?old @ [?new]) = replicate 99 ?old @ [?new]"
    by (simp add: most_recent_def)
  have "last (replicate 100 ?old) = ?old" by simp
  moreover have "last (replicate 99 ?old @ [?new]) = ?new" by simp
  ultimately have "replicate 100 ?old \<noteq> replicate 99 ?old @ [?new]" using ne by metis
  then show ?thesis
    by (simp add: resume_failed sample_logger_def a b del: take_append replicate_Suc)
qed




subsection \<open>Starting a flush, and a successful delivery\<close>

text \<open>
  Claim C7. A flush of an empty pending list changes nothing. A flush of a non-empty one
  takes the whole pending list as its batch and clears the pending list before it
  attempts the request; when the request is built, the batch is that of a new outstanding
  request and the pending list is empty, so an entry enqueued afterwards is alone in the
  pending list and the batch is unchanged; when the request cannot be built, the batch
  is put back, cut to 100. When the delivery succeeds, the rest of the
  flush changes nothing: the batch does not come back, and what was enqueued meanwhile
  stays as it is, so after a whole attempt the pending list is what was enqueued during
  it.
\<close>

theorem flush_snapshot_and_success:
  "(pendingLogs st = [] \<longrightarrow> flushPendingLogs h st = st)
   \<and> (pendingLogs st \<noteq> [] \<longrightarrow>
        flushPendingLogs h st = flush_try h (pendingLogs st) (st\<lparr>pendingLogs := []\<rparr>))
   \<and> (pendingLogs st \<noteq> [] \<and> build_request h (pendingLogs st) = Inr () \<longrightarrow>
        flushPendingLogs h st = st\<lparr>pendingLogs := [], inflight := inflight st @ [pendingLogs st]\<rparr>
        \<and> pendingLogs (addToPendingLogs h entry (flushPendingLogs h st)) = [entry]
        \<and> inflight (addToPendingLogs h entry (flushPendingLogs h st)) = inflight st @ [pendingLogs st])
   \<and> (pendingLogs st \<noteq> [] \<and> (\<exists>err. build_request h (pendingLogs st) = Inl err) \<longrightarrow>
        flushPendingLogs h st = st\<lparr>pendingLogs := take 100 (pendingLogs st)\<rparr>)
   \<and> flushPendingLogs_resume ResponseOk batch later = later
   \<and> pendingLogs (settle i ResponseOk later) = pendingLogs later
   \<and> (pendingLogs st \<noteq> [] \<and> build_request h (pendingLogs st) = Inr () \<and> length during < 10 \<longrightarrow>
        pendingLogs (settle (length (inflight st)) ResponseOk
            (enqueue_all h (flushPendingLogs h st) during)) = during)"
proof -
  have unbuilt: "pendingLogs st \<noteq> [] \<and> (\<exists>err. build_request h (pendingLogs st) = Inl err) \<longrightarrow>
        flushPendingLogs h st = st\<lparr>pendingLogs := take 100 (pendingLogs st)\<rparr>"
    by (auto simp: flush_failed)
  have cleared: "pendingLogs st \<noteq> [] \<longrightarrow>
        flushPendingLogs h st = flush_try h (pendingLogs st) (st\<lparr>pendingLogs := []\<rparr>)"
    by (simp add: flush_nonempty)
  have started: "pendingLogs st \<noteq> [] \<and> build_request h (pendingLogs st) = Inr () \<longrightarrow>
        flushPendingLogs h st = st\<lparr>pendingLogs := [], inflight := inflight st @ [pendingLogs st]\<rparr>
        \<and> pendingLogs (addToPendingLogs h entry (flushPendingLogs h st)) = [entry]
        \<and> inflight (addToPendingLogs h entry (flushPendingLogs h st)) = inflight st @ [pendingLogs st]"
    by (simp add: flush_built addToPendingLogs_def)
  have ok: "flushPendingLogs_resume ResponseOk batch later = later" for batch later
    by (simp add: flushPendingLogs_resume_def)
  have whole: "pendingLogs st \<noteq> [] \<and> build_request h (pendingLogs st) = Inr ()
        \<and> length during < 10 \<longrightarrow>
        pendingLogs (settle (length (inflight st)) ResponseOk
            (enqueue_all h (flushPendingLogs h st) during)) = during"
    by (simp add: attempt_settled ok)
  have empty: "pendingLogs st = [] \<longrightarrow> flushPendingLogs h st = st"
    by (simp add: flush_empty)
  show ?thesis
    using empty cleared started unbuilt ok [of batch later] pending_settle_ok [of i later] whole
    by blast
qed

theorem flush_snapshot_and_success_witness:
  "flushPendingLogs sample_host (sample_logger [] []) = sample_logger [] []
   \<and> flushPendingLogs sample_host (sample_logger [] [sample_entry Error ''a''])
       = (sample_logger [] [])\<lparr>inflight := [[sample_entry Error ''a'']]\<rparr>
   \<and> pendingLogs (settle 0 ResponseOk
        (addToPendingLogs sample_host (sample_entry Warn ''b'')
          (flushPendingLogs sample_host (sample_logger [] [sample_entry Error ''a'']))))
       = [sample_entry Warn ''b'']"
proof -
  let ?empty = "sample_logger [] []"
  let ?one = "sample_logger [] [sample_entry Error ''a'']"
  let ?later = "addToPendingLogs sample_host (sample_entry Warn ''b'')
                  (flushPendingLogs sample_host ?one)"
  have e: "pendingLogs ?empty = []"
    and n: "pendingLogs ?one \<noteq> [] \<and> build_request sample_host (pendingLogs ?one) = Inr ()"
    by (simp_all add: sample_logger_def build_request_ok sample_host_def serialisable_def
        sample_entry_def)
  note t = flush_snapshot_and_success
    [of ?one sample_host "sample_entry Warn ''b''" "[]" ?later 0 "[]"]
  have "flushPendingLogs sample_host ?empty = ?empty"
    using flush_snapshot_and_success [of ?empty sample_host _ _ _ _ "[]"] e by blast
  moreover have "flushPendingLogs sample_host ?one
      = ?one\<lparr>pendingLogs := [], inflight := inflight ?one @ [pendingLogs ?one]\<rparr>"
    using t n by blast
  then have "flushPendingLogs sample_host ?one
      = ?empty\<lparr>inflight := [[sample_entry Error ''a'']]\<rparr>"
    by (simp add: sample_logger_def)
  moreover have "pendingLogs (settle 0 ResponseOk ?later) = [sample_entry Warn ''b'']"
    using t n by metis
  ultimately show ?thesis by blast
qed

subsection \<open>The size threshold\<close>

text \<open>
  Claim C6, as the code has it. From a pending list below the threshold, enqueue entries
  until the list has 10 of them. None of the enqueues before the last starts a flush:
  each only appends. The last one starts exactly one flush, which takes the ten entries
  as its batch. When the request can be built (there is a \<open>fetch\<close>, and the batch can be
  serialised) it is the one new outstanding request and the pending list is empty, so
  the next enqueue finds a list of length 1 and starts no flush. When it cannot, the
  \<open>catch\<close> block has put the ten entries back before the enqueue returns: no request is
  outstanding, and the next enqueue starts a flush again, which fails in the same way
  and leaves eleven entries pending.
\<close>

theorem tenth_enqueue_flushes_once:
  assumes "length (pendingLogs st) + length es = 10" and "es \<noteq> []"
  shows "(\<forall>k < length es.
            enqueue_all h st (take k es) = st\<lparr>pendingLogs := pendingLogs st @ take k es\<rparr>)
       \<and> enqueue_all h st es = flush_try h (pendingLogs st @ es) (st\<lparr>pendingLogs := []\<rparr>)
       \<and> (build_request h (pendingLogs st @ es) = Inr () \<longrightarrow>
            enqueue_all h st es
              = st\<lparr>pendingLogs := [], inflight := inflight st @ [pendingLogs st @ es]\<rparr>
            \<and> length (inflight (enqueue_all h st es)) = length (inflight st) + 1
            \<and> addToPendingLogs h e (enqueue_all h st es)
                = (enqueue_all h st es)\<lparr>pendingLogs := [e]\<rparr>)
       \<and> ((\<exists>err. build_request h (pendingLogs st @ es) = Inl err) \<longrightarrow>
            enqueue_all h st es = st\<lparr>pendingLogs := pendingLogs st @ es\<rparr>
            \<and> addToPendingLogs h e (enqueue_all h st es)
                = flush_try h (pendingLogs st @ es @ [e]) (st\<lparr>pendingLogs := []\<rparr>)
            \<and> addToPendingLogs h e (enqueue_all h st es)
                = st\<lparr>pendingLogs := pendingLogs st @ es @ [e]\<rparr>)"
proof -
  have ten: "length (pendingLogs st @ es) = 10" using assms(1) by simp
  have a: "\<forall>k < length es.
            enqueue_all h st (take k es) = st\<lparr>pendingLogs := pendingLogs st @ take k es\<rparr>"
  proof (intro allI impI)
    fix k assume "k < length es"
    then show "enqueue_all h st (take k es) = st\<lparr>pendingLogs := pendingLogs st @ take k es\<rparr>"
      using assms(1) by (intro enqueue_below) simp
  qed
  note b = enqueue_reaching [OF assms, of h]
  have built: "build_request h (pendingLogs st @ es) = Inr () \<longrightarrow>
            enqueue_all h st es
              = st\<lparr>pendingLogs := [], inflight := inflight st @ [pendingLogs st @ es]\<rparr>
            \<and> length (inflight (enqueue_all h st es)) = length (inflight st) + 1
            \<and> addToPendingLogs h e (enqueue_all h st es)
                = (enqueue_all h st es)\<lparr>pendingLogs := [e]\<rparr>"
  proof
    assume ok: "build_request h (pendingLogs st @ es) = Inr ()"
    have s: "enqueue_all h st es
               = st\<lparr>pendingLogs := [], inflight := inflight st @ [pendingLogs st @ es]\<rparr>"
      by (simp add: b flush_try_built [OF ok])
    show "enqueue_all h st es
              = st\<lparr>pendingLogs := [], inflight := inflight st @ [pendingLogs st @ es]\<rparr>
            \<and> length (inflight (enqueue_all h st es)) = length (inflight st) + 1
            \<and> addToPendingLogs h e (enqueue_all h st es)
                = (enqueue_all h st es)\<lparr>pendingLogs := [e]\<rparr>"
      by (simp add: s addToPendingLogs_def)
  qed
  have failed: "(\<exists>err. build_request h (pendingLogs st @ es) = Inl err) \<longrightarrow>
            enqueue_all h st es = st\<lparr>pendingLogs := pendingLogs st @ es\<rparr>
            \<and> addToPendingLogs h e (enqueue_all h st es)
                = flush_try h (pendingLogs st @ es @ [e]) (st\<lparr>pendingLogs := []\<rparr>)
            \<and> addToPendingLogs h e (enqueue_all h st es)
                = st\<lparr>pendingLogs := pendingLogs st @ es @ [e]\<rparr>"
  proof
    assume "\<exists>err. build_request h (pendingLogs st @ es) = Inl err"
    then obtain err where err: "build_request h (pendingLogs st @ es) = Inl err" by blast
    obtain err' where err': "build_request h (pendingLogs st @ es @ [e]) = Inl err'"
      using build_request_snoc_fails [OF err, of e] by auto
    have s: "enqueue_all h st es = st\<lparr>pendingLogs := pendingLogs st @ es\<rparr>"
      using ten by (simp add: b flush_try_failed [OF err])
    have again: "addToPendingLogs h e (st\<lparr>pendingLogs := pendingLogs st @ es\<rparr>)
            = flush_try h (pendingLogs st @ es @ [e]) (st\<lparr>pendingLogs := []\<rparr>)"
      using ten by (simp add: addToPendingLogs_def flushPendingLogs_def)
    have requeued: "flush_try h (pendingLogs st @ es @ [e]) (st\<lparr>pendingLogs := []\<rparr>)
            = st\<lparr>pendingLogs := pendingLogs st @ es @ [e]\<rparr>"
      using ten by (simp add: flush_try_failed [OF err'])
    show "enqueue_all h st es = st\<lparr>pendingLogs := pendingLogs st @ es\<rparr>
            \<and> addToPendingLogs h e (enqueue_all h st es)
                = flush_try h (pendingLogs st @ es @ [e]) (st\<lparr>pendingLogs := []\<rparr>)
            \<and> addToPendingLogs h e (enqueue_all h st es)
                = st\<lparr>pendingLogs := pendingLogs st @ es @ [e]\<rparr>"
      by (simp only: s again requeued)
  qed
  show ?thesis
    using a b built failed by blast
qed

theorem tenth_enqueue_flushes_once_witness:
  "enqueue_all sample_host (sample_logger [] (replicate 8 (sample_entry Warn ''w'')))
     [sample_entry Error ''ninth'', sample_entry Error ''tenth'']
   = (sample_logger [] [])\<lparr>inflight :=
       [replicate 8 (sample_entry Warn ''w'') @ [sample_entry Error ''ninth'', sample_entry Error ''tenth'']]\<rparr>
   \<and> enqueue_all sample_host (sample_logger [] (replicate 8 (sample_entry Warn ''w'')))
       [sample_entry Error ''ninth'']
   = sample_logger [] (replicate 8 (sample_entry Warn ''w'') @ [sample_entry Error ''ninth''])"
proof -
  let ?S = "sample_logger [] (replicate 8 (sample_entry Warn ''w''))"
  let ?es = "[sample_entry Error ''ninth'', sample_entry Error ''tenth'']"
  have h1: "length (pendingLogs ?S) + length ?es = 10" by (simp add: sample_logger_def)
  have h2: "?es \<noteq> []" by simp
  have ok: "build_request sample_host (pendingLogs ?S @ ?es) = Inr ()"
    by (simp add: build_request_ok sample_host_def sample_logger_def serialisable_def
        sample_entry_def list_all_iff)
  note t = tenth_enqueue_flushes_once [OF h1 h2, of sample_host]
  have "enqueue_all sample_host ?S ?es
          = ?S\<lparr>pendingLogs := [], inflight := inflight ?S @ [pendingLogs ?S @ ?es]\<rparr>"
    using t ok by blast
  moreover have "enqueue_all sample_host ?S (take 1 ?es)
          = ?S\<lparr>pendingLogs := pendingLogs ?S @ take 1 ?es\<rparr>"
    by (rule t [THEN conjunct1, rule_format]) simp
  ultimately show ?thesis
    by (simp add: sample_logger_def)
qed

text \<open>
  Claim C6 as the specification words it (the flush has emptied the queue before an
  eleventh enqueue) fails where the request cannot be built: ten errors whose data is an
  object that refers to itself are all pending after the tenth enqueue, with no request
  outstanding, and so they are after ten calls of the level method.
\<close>

theorem tenth_enqueue_unsent_counterexample:
  "pendingLogs (enqueue_all sample_host (sample_logger [] [])
      (replicate 10 ((sample_entry Error ''e'')\<lparr>data := Some cyclic_value\<rparr>)))
     = replicate 10 ((sample_entry Error ''e'')\<lparr>data := Some cyclic_value\<rparr>)
   \<and> inflight (enqueue_all sample_host (sample_logger [] [])
      (replicate 10 ((sample_entry Error ''e'')\<lparr>data := Some cyclic_value\<rparr>))) = []
   \<and> pendingLogs (run (sample_logger [] [])
      (replicate 10 (LogCall sample_host Error ''e'' (Some cyclic_value) None None)))
     = replicate 10 (new_entry sample_host Error ''e'' (Some cyclic_value) None None)"
  by code_simp

subsection \<open>Reading the history\<close>

text \<open>
  Claim C8. With a level, \<open>getHistory\<close> returns the entries of that level, in the order of
  the history. With a positive limit \<open>n\<close> it returns the last \<open>n\<close> entries of the filtered
  list (all of them when there are fewer), so at most \<open>n\<close> entries, a final segment of the
  filtered list in the same order. On a history with five errors, asking for errors with
  limit 2 gives the fourth and the fifth error.
\<close>

theorem getHistory_filter_limit:
  "getHistory (Some l) None st = filter (\<lambda>entry. level entry = l) (logHistory st)
   \<and> (0 < n \<longrightarrow>
        getHistory lv (Some n) st = most_recent (nat n) (getHistory lv None st)
        \<and> int (length (getHistory lv (Some n) st)) \<le> n
        \<and> (\<exists>older. getHistory lv None st = older @ getHistory lv (Some n) st))
   \<and> (length (filter (\<lambda>entry. level entry = Error) (logHistory st)) = 5 \<longrightarrow>
        getHistory (Some Error) (Some 2) st
          = drop 3 (filter (\<lambda>entry. level entry = Error) (logHistory st)))"
proof -
  have a: "0 < n \<Longrightarrow> getHistory lv (Some n) st = most_recent (nat n) (getHistory lv None st)"
    for n lv
    by (simp add: getHistory_def slice_from_def most_recent_def Let_def)
  have b: "most_recent k xs = drop (length xs - k) xs" for k and xs :: "LogEntry list"
    by (simp add: most_recent_def)
  have c: "\<exists>older. xs = older @ most_recent k xs" for k and xs :: "LogEntry list"
    unfolding b by (metis append_take_drop_id)
  have d: "length (most_recent k xs) \<le> k" for k and xs :: "LogEntry list"
    by (simp add: b)
  have e: "0 < n \<Longrightarrow> int (length (most_recent (nat n) xs)) \<le> n"
    for n and xs :: "LogEntry list"
    using d [of "nat n" xs] by linarith
  have f: "getHistory (Some l) None st = filter (\<lambda>entry. level entry = l) (logHistory st)" for l
    by (simp add: getHistory_def)
  have g: "getHistory (Some Error) (Some 2) st
             = most_recent 2 (filter (\<lambda>entry. level entry = Error) (logHistory st))"
    using a [of 2 "Some Error"] f by simp
  show ?thesis
    using a c e f by (auto simp: g b)
qed

theorem getHistory_filter_limit_witness:
  "getHistory (Some Error) (Some 2)
     (sample_logger [sample_entry Error ''e1'', sample_entry Warn ''w1'', sample_entry Error ''e2'',
        sample_entry Error ''e3'', sample_entry Warn ''w2'', sample_entry Error ''e4'',
        sample_entry Warn ''w3'', sample_entry Error ''e5''] [])
   = [sample_entry Error ''e4'', sample_entry Error ''e5'']"
proof -
  let ?S = "sample_logger [sample_entry Error ''e1'', sample_entry Warn ''w1'',
        sample_entry Error ''e2'', sample_entry Error ''e3'', sample_entry Warn ''w2'',
        sample_entry Error ''e4'', sample_entry Warn ''w3'', sample_entry Error ''e5''] []"
  have errors: "filter (\<lambda>entry. level entry = Error) (logHistory ?S)
      = [sample_entry Error ''e1'', sample_entry Error ''e2'', sample_entry Error ''e3'',
         sample_entry Error ''e4'', sample_entry Error ''e5'']"
    by (simp add: sample_logger_def sample_entry_def)
  have five: "length (filter (\<lambda>entry. level entry = Error) (logHistory ?S)) = 5"
    by (simp only: errors) simp
  have "getHistory (Some Error) (Some 2) ?S
          = drop 3 (filter (\<lambda>entry. level entry = Error) (logHistory ?S))"
    by (rule getHistory_filter_limit [THEN conjunct2, THEN conjunct2, rule_format, OF five])
  then show ?thesis
    by (simp only: errors) simp
qed

text \<open>
  Claim C10. A limit of 0 is not a limit: \<open>getHistory\<close> returns the whole filtered list,
  as it does without a limit.
\<close>

theorem getHistory_limit_zero:
  "getHistory lv (Some 0) st = getHistory lv None st
   \<and> getHistory (Some l) (Some 0) st = filter (\<lambda>entry. level entry = l) (logHistory st)
   \<and> getHistory None (Some 0) st = logHistory st"
  by (simp add: getHistory_def)

theorem getHistory_limit_zero_witness:
  "getHistory (Some Error) (Some 0)
     (sample_logger [sample_entry Error ''a'', sample_entry Info ''b'', sample_entry Error ''c''] [])
   = [sample_entry Error ''a'', sample_entry Error ''c'']"
  using getHistory_limit_zero [of None
      "sample_logger [sample_entry Error ''a'', sample_entry Info ''b'', sample_entry Error ''c''] []" Error]
  by (simp add: sample_logger_def sample_entry_def)

subsection \<open>Persisting an entry\<close>

lemma json_entry_idem: "json_entry (json_entry e) = json_entry e"
  by (simp add: json_entry_def split: option.splits serialised.splits)

lemma json_entry_serialisable: "serialisable (json_entry e)"
  by (simp add: json_entry_def serialisable_def split: option.splits serialised.splits)

lemma normal_serialisable: "json_entry e = e \<Longrightarrow> serialisable e"
  using json_entry_serialisable [of e] by simp

lemma enriched_serialisable: "serialisable (enrichedEntry h e) = serialisable e"
  by (simp add: serialisable_def enrichedEntry_def)

lemma persist_try_eq:
  "persist_try h e st =
     (case getItem h st of
        Inl err \<Rightarrow> Inl err
      | Inr stored \<Rightarrow>
          (case parse_or_empty stored of
             Inl err \<Rightarrow> Inl err
           | Inr NotAnArray \<Rightarrow> Inl TypeError
           | Inr (StringValue s) \<Rightarrow> Inl TypeError
           | Inr (EntryArray logs) \<Rightarrow>
               (if list_all serialisable (most_recent 500 (logs @ [enrichedEntry h e]))
                then setItem h
                       (LogArray (map json_entry (most_recent 500 (logs @ [enrichedEntry h e])))) st
                else Inl TypeError)))"
  unfolding persist_try_def Let_def storage_limit JSON_stringify_def
  by (simp split: sum.splits json_parsed.splits)

text \<open>Every way persist can end: nothing written, or the limited list written.\<close>

lemma persist_storage_cases:
  "persistToLocalStorage h e st = st
   \<or> (\<exists>logs. parse_or_empty (localStorage_item st) = Inr (EntryArray logs)
          \<and> localStorage_item (persistToLocalStorage h e st)
              = Some (LogArray (map json_entry (most_recent 500 (logs @ [enrichedEntry h e])))))"
  by (auto simp: persistToLocalStorage_def persist_try_eq getItem_def setItem_def
      split: sum.splits json_parsed.splits)

lemma persist_storage_works:
  assumes "storage_works h" and "parse_or_empty (localStorage_item st) = Inr (EntryArray logs)"
    and "list_all serialisable (logs @ [e])"
  shows "localStorage_item (persistToLocalStorage h e st)
           = Some (LogArray (map json_entry (most_recent 500 (logs @ [enrichedEntry h e]))))"
proof -
  have "list_all serialisable (logs @ [enrichedEntry h e])"
    using assms(3) by (simp add: enriched_serialisable)
  then have "list_all serialisable (most_recent 500 (logs @ [enrichedEntry h e]))"
    using most_recent_subset [of 500 "logs @ [enrichedEntry h e]"]
    unfolding list_all_iff by blast
  with assms(1,2) show ?thesis
    by (simp add: storage_works_def persistToLocalStorage_def persist_try_eq getItem_def
        setItem_def)
qed

lemma persist_rejected:
  assumes "\<not> serialisable e"
  shows "persistToLocalStorage h e st = st"
proof -
  have "\<not> list_all serialisable (most_recent 500 (logs @ [enrichedEntry h e]))" for logs
  proof -
    obtain ys where "most_recent 500 (logs @ [enrichedEntry h e]) = ys @ [enrichedEntry h e]"
      using most_recent_snoc [of 500 logs "enrichedEntry h e"] by auto
    then show ?thesis using assms by (simp add: enriched_serialisable)
  qed
  then show ?thesis
    by (auto simp: persistToLocalStorage_def persist_try_eq split: sum.splits json_parsed.splits)
qed

lemma persist_bound:
  "length (stored_entries st) \<le> 500 \<Longrightarrow>
   length (stored_entries (persistToLocalStorage h e st)) \<le> 500"
  using persist_storage_cases [of h e st]
  by (auto simp: stored_entries_def most_recent_length)

lemma usable_parse:
  "store_usable st \<Longrightarrow> parse_or_empty (localStorage_item st) = Inr (EntryArray (stored_entries st))"
  by (auto simp: store_usable_def stored_entries_def parse_or_empty_def JSON_parse_def
      split: option.splits json_text.splits)

lemma usable_normal:
  "store_usable st \<Longrightarrow> map json_entry (stored_entries st) = stored_entries st"
  by (auto simp: store_usable_def stored_entries_def list_all_iff map_idI
      split: option.splits json_text.splits)

lemma usable_serialisable:
  "store_usable st \<Longrightarrow> list_all serialisable (stored_entries st)"
  by (auto simp: store_usable_def stored_entries_def list_all_iff normal_serialisable
      split: option.splits json_text.splits)

lemma persist_usable:
  assumes "storage_works h" and "store_usable st" and "serialisable e"
  shows "store_usable (persistToLocalStorage h e st)"
    and "stored_entries (persistToLocalStorage h e st)
           = most_recent 500 (stored_entries st @ [json_entry (enrichedEntry h e)])"
proof -
  have all: "list_all serialisable (stored_entries st @ [e])"
    using usable_serialisable [OF assms(2)] assms(3) by simp
  note w = persist_storage_works [OF assms(1) usable_parse [OF assms(2)] all]
  show "store_usable (persistToLocalStorage h e st)"
    by (simp add: w store_usable_def list_all_iff json_entry_idem)
  have "stored_entries (persistToLocalStorage h e st)
          = map json_entry (most_recent 500 (stored_entries st @ [enrichedEntry h e]))"
    by (simp add: w stored_entries_def [of "persistToLocalStorage h e st"])
  also have "\<dots> = most_recent 500 (map json_entry (stored_entries st) @ [json_entry (enrichedEntry h e)])"
    by (simp add: most_recent_map [symmetric])
  finally show "stored_entries (persistToLocalStorage h e st)
           = most_recent 500 (stored_entries st @ [json_entry (enrichedEntry h e)])"
    by (simp add: usable_normal [OF assms(2)])
qed







subsection \<open>One call of a level method\<close>

lemma log_history:
  "logHistory (log h lv msg d c a st) =
     (let pushed = logHistory st @ [new_entry h lv msg d c a]
      in if length pushed > maxHistorySize then shift pushed else pushed)"
  by (simp add: log_def addToHistory_def Let_def enqueue_frame persist_frame)

lemma log_history_most_recent:
  "length (logHistory st) \<le> 100 \<Longrightarrow>
   logHistory (log h lv msg d c a st) = most_recent 100 (logHistory st @ [new_entry h lv msg d c a])"
  using shift_most_recent [of "logHistory st" 100 "new_entry h lv msg d c a"]
  by (simp add: log_history maxHistorySize_def Let_def)

lemma log_unfold:
  "log h lv msg d c a st =
     (if lv = Error \<or> lv = Warn
      then addToPendingLogs h (new_entry h lv msg d c a)
             (persistToLocalStorage h (new_entry h lv msg d c a)
               (pushed_history (new_entry h lv msg d c a) st))
      else pushed_history (new_entry h lv msg d c a) st)"
  by (simp add: log_def addToHistory_def Let_def pushed_history_def new_entry_def)

lemma persist_storage_cong:
  "localStorage_item st' = localStorage_item st \<Longrightarrow>
   localStorage_item (persistToLocalStorage h e st') = localStorage_item (persistToLocalStorage h e st)"
  by (simp add: persistToLocalStorage_def persist_try_eq getItem_def setItem_def
      split: sum.splits json_parsed.splits)

lemma log_storage:
  "localStorage_item (log h lv msg d c a st) =
     (if lv = Error \<or> lv = Warn
      then localStorage_item (persistToLocalStorage h (new_entry h lv msg d c a) st)
      else localStorage_item st)"
  by (simp add: log_unfold enqueue_frame pushed_history_frame
      persist_storage_cong [OF pushed_history_frame(3)])

text \<open>
  Claim C4. A call at level debug or info only appends to the history: the store, the
  pending list and the outstanding requests are as before. A call at level warn or
  error appends to the history and then hands the entry to \<open>persistToLocalStorage\<close> and to
  \<open>addToPendingLogs\<close>. The entry becomes the last of the pending list; when that makes ten
  or more, a flush starts at once with the entry as the last of its batch, which is then
  the batch of a new outstanding request or, when the request cannot be built, back in
  the pending list cut to 100. Where the storage works and the data can be serialised,
  the enriched entry is appended to the store; data that cannot be serialised leaves the
  store as it is.
\<close>

theorem only_warn_error_persisted_enqueued:
  "(lv = Debug \<or> lv = Info \<longrightarrow>
      log h lv msg d c a st = pushed_history (new_entry h lv msg d c a) st
      \<and> localStorage_item (log h lv msg d c a st) = localStorage_item st
      \<and> pendingLogs (log h lv msg d c a st) = pendingLogs st
      \<and> inflight (log h lv msg d c a st) = inflight st)
   \<and> (lv = Warn \<or> lv = Error \<longrightarrow>
      log h lv msg d c a st
        = addToPendingLogs h (new_entry h lv msg d c a)
            (persistToLocalStorage h (new_entry h lv msg d c a)
              (pushed_history (new_entry h lv msg d c a) st))
      \<and> (length (pendingLogs st @ [new_entry h lv msg d c a]) < 10 \<longrightarrow>
            pendingLogs (log h lv msg d c a st) = pendingLogs st @ [new_entry h lv msg d c a]
            \<and> inflight (log h lv msg d c a st) = inflight st)
      \<and> (length (pendingLogs st @ [new_entry h lv msg d c a]) \<ge> 10
            \<and> build_request h (pendingLogs st @ [new_entry h lv msg d c a]) = Inr () \<longrightarrow>
            pendingLogs (log h lv msg d c a st) = []
            \<and> inflight (log h lv msg d c a st)
                = inflight st @ [pendingLogs st @ [new_entry h lv msg d c a]])
      \<and> (length (pendingLogs st @ [new_entry h lv msg d c a]) \<ge> 10
            \<and> (\<exists>err. build_request h (pendingLogs st @ [new_entry h lv msg d c a]) = Inl err) \<longrightarrow>
            pendingLogs (log h lv msg d c a st)
              = take 100 (pendingLogs st @ [new_entry h lv msg d c a])
            \<and> inflight (log h lv msg d c a st) = inflight st)
      \<and> (storage_works h \<and> store_usable st \<and> serialisable (new_entry h lv msg d c a) \<longrightarrow>
            stored_entries (log h lv msg d c a st)
              = most_recent 500 (stored_entries st
                  @ [json_entry (enrichedEntry h (new_entry h lv msg d c a))]))
      \<and> (\<not> serialisable (new_entry h lv msg d c a) \<longrightarrow>
            localStorage_item (log h lv msg d c a st) = localStorage_item st))"
proof -
  let ?e = "new_entry h lv msg d c a"
  let ?p = "persistToLocalStorage h ?e (pushed_history ?e st)"
  have quiet: "log h lv msg d c a st = pushed_history ?e st" if "lv = Debug \<or> lv = Info"
    using that by (auto simp: log_unfold)
  have loud: "log h lv msg d c a st = addToPendingLogs h ?e ?p" if "lv = Warn \<or> lv = Error"
    using that by (auto simp: log_unfold)
  have queue: "(length (pendingLogs st @ [?e]) < 10 \<longrightarrow>
                  pendingLogs (addToPendingLogs h ?e ?p) = pendingLogs st @ [?e]
                  \<and> inflight (addToPendingLogs h ?e ?p) = inflight st)
             \<and> (length (pendingLogs st @ [?e]) \<ge> 10
                  \<and> build_request h (pendingLogs st @ [?e]) = Inr () \<longrightarrow>
                  pendingLogs (addToPendingLogs h ?e ?p) = []
                  \<and> inflight (addToPendingLogs h ?e ?p) = inflight st @ [pendingLogs st @ [?e]])
             \<and> (length (pendingLogs st @ [?e]) \<ge> 10
                  \<and> (\<exists>err. build_request h (pendingLogs st @ [?e]) = Inl err) \<longrightarrow>
                  pendingLogs (addToPendingLogs h ?e ?p) = take 100 (pendingLogs st @ [?e])
                  \<and> inflight (addToPendingLogs h ?e ?p) = inflight st)"
    using enqueue_cases [of ?p ?e h] by (simp add: persist_frame pushed_history_frame)
  have store: "stored_entries (addToPendingLogs h ?e ?p)
                 = most_recent 500 (stored_entries st @ [json_entry (enrichedEntry h ?e)])"
    if "storage_works h \<and> store_usable st \<and> serialisable ?e"
  proof -
    have u: "store_usable (pushed_history ?e st)"
      using that by (simp add: store_usable_def pushed_history_frame)
    have "stored_entries (addToPendingLogs h ?e ?p) = stored_entries ?p"
      by (simp add: stored_entries_def enqueue_frame)
    also have "\<dots> = most_recent 500 (stored_entries (pushed_history ?e st)
                         @ [json_entry (enrichedEntry h ?e)])"
      using that u by (simp add: persist_usable(2))
    finally show ?thesis
      by (simp add: stored_entries_def pushed_history_frame)
  qed
  have rejected: "localStorage_item (addToPendingLogs h ?e ?p) = localStorage_item st"
    if "\<not> serialisable ?e"
    by (simp add: enqueue_frame persist_rejected [OF that] pushed_history_frame)
  show ?thesis
  proof (intro conjI impI)
    assume q: "lv = Debug \<or> lv = Info"
    show "log h lv msg d c a st = pushed_history ?e st" by (rule quiet [OF q])
    show "localStorage_item (log h lv msg d c a st) = localStorage_item st"
      by (simp add: quiet [OF q] pushed_history_frame)
    show "pendingLogs (log h lv msg d c a st) = pendingLogs st"
      by (simp add: quiet [OF q] pushed_history_frame)
    show "inflight (log h lv msg d c a st) = inflight st"
      by (simp add: quiet [OF q] pushed_history_frame)
  next
    assume l: "lv = Warn \<or> lv = Error"
    show "log h lv msg d c a st = addToPendingLogs h ?e ?p" by (rule loud [OF l])
  next
    assume l: "lv = Warn \<or> lv = Error" and n: "length (pendingLogs st @ [?e]) < 10"
    show "pendingLogs (log h lv msg d c a st) = pendingLogs st @ [?e]"
      and "inflight (log h lv msg d c a st) = inflight st"
      using queue n by (simp_all only: loud [OF l])
  next
    assume l: "lv = Warn \<or> lv = Error"
      and n: "length (pendingLogs st @ [?e]) \<ge> 10 \<and> build_request h (pendingLogs st @ [?e]) = Inr ()"
    show "pendingLogs (log h lv msg d c a st) = []"
      and "inflight (log h lv msg d c a st) = inflight st @ [pendingLogs st @ [?e]]"
      using queue n by (simp_all only: loud [OF l])
  next
    assume l: "lv = Warn \<or> lv = Error"
      and n: "length (pendingLogs st @ [?e]) \<ge> 10
              \<and> (\<exists>err. build_request h (pendingLogs st @ [?e]) = Inl err)"
    show "pendingLogs (log h lv msg d c a st) = take 100 (pendingLogs st @ [?e])"
      and "inflight (log h lv msg d c a st) = inflight st"
      using queue n by (simp_all only: loud [OF l])
  next
    assume l: "lv = Warn \<or> lv = Error"
      and w: "storage_works h \<and> store_usable st \<and> serialisable ?e"
    show "stored_entries (log h lv msg d c a st)
            = most_recent 500 (stored_entries st @ [json_entry (enrichedEntry h ?e)])"
      using store [OF w] by (simp only: loud [OF l])
  next
    assume l: "lv = Warn \<or> lv = Error" and r: "\<not> serialisable ?e"
    show "localStorage_item (log h lv msg d c a st) = localStorage_item st"
      using rejected [OF r] by (simp only: loud [OF l])
  qed
qed

theorem only_warn_error_persisted_enqueued_witness:
  "log sample_host Info ''loaded'' None None None (sample_logger [] [])
     = sample_logger [new_entry sample_host Info ''loaded'' None None None] []
   \<and> pendingLogs (log sample_host Warn ''slow'' None None None (sample_logger [] []))
     = [new_entry sample_host Warn ''slow'' None None None]
   \<and> stored_entries (log sample_host Warn ''slow'' None None None (sample_logger [] []))
     = [json_entry (enrichedEntry sample_host (new_entry sample_host Warn ''slow'' None None None))]"
proof -
  let ?S = "sample_logger [] []"
  note quiet = only_warn_error_persisted_enqueued [of Info sample_host "''loaded''" None None None ?S]
  note loud = only_warn_error_persisted_enqueued [of Warn sample_host "''slow''" None None None ?S]
  have w: "storage_works sample_host \<and> store_usable ?S
           \<and> serialisable (new_entry sample_host Warn ''slow'' None None None)"
    by (simp add: storage_works_def sample_host_def store_usable_def sample_logger_def
        serialisable_def new_entry_def)
  have "log sample_host Info ''loaded'' None None None ?S
          = pushed_history (new_entry sample_host Info ''loaded'' None None None) ?S"
    using quiet by blast
  then have a: "log sample_host Info ''loaded'' None None None ?S
          = sample_logger [new_entry sample_host Info ''loaded'' None None None] []"
    by (simp add: pushed_history_def sample_logger_def maxHistorySize_def)
  have "stored_entries (log sample_host Warn ''slow'' None None None ?S)
          = most_recent 500 (stored_entries ?S
              @ [json_entry (enrichedEntry sample_host (new_entry sample_host Warn ''slow'' None None None))])"
    using loud w by blast
  then have b: "stored_entries (log sample_host Warn ''slow'' None None None ?S)
     = [json_entry (enrichedEntry sample_host (new_entry sample_host Warn ''slow'' None None None))]"
    by (simp add: most_recent_def stored_entries_def sample_logger_def)
  have "length (pendingLogs ?S @ [new_entry sample_host Warn ''slow'' None None None]) < 10"
    by (simp add: sample_logger_def)
  then have "pendingLogs (log sample_host Warn ''slow'' None None None ?S)
           = pendingLogs ?S @ [new_entry sample_host Warn ''slow'' None None None]"
    using loud by blast
  then have c: "pendingLogs (log sample_host Warn ''slow'' None None None ?S)
     = [new_entry sample_host Warn ''slow'' None None None]"
    by (simp add: sample_logger_def)
  show ?thesis using a b c by blast
qed

subsection \<open>Runs\<close>

lemma run_Nil: "run st [] = st"
  by (simp add: run_def)

lemma run_Cons: "run st (ev # evs) = run (step st ev) evs"
  by (simp add: run_def)

lemma logged_Cons: "logged (ev # evs) = logged [ev] @ logged evs"
  by (cases ev) simp_all

lemma persisted_Cons: "persisted (ev # evs) = persisted [ev] @ persisted evs"
  by (cases ev) simp_all

lemma hosts_work_Cons: "hosts_work (ev # evs) = (hosts_work [ev] \<and> hosts_work evs)"
  by (cases ev) simp_all

lemma step_history:
  assumes "length (logHistory st) \<le> 100"
  shows "logHistory (step st ev) = most_recent 100 (logHistory st @ logged [ev])"
proof (cases ev)
  case (LogCall h lv msg d c a)
  then show ?thesis by (simp add: log_history_most_recent [OF assms])
next
  case (Flush h)
  then show ?thesis by (simp add: flush_frame most_recent_all [OF assms])
next
  case (Settle i r)
  then show ?thesis by (simp add: settle_frame most_recent_all [OF assms])
qed

lemma run_history:
  "length (logHistory st) \<le> 100 \<Longrightarrow>
   logHistory (run st evs) = most_recent 100 (logHistory st @ logged evs)"
proof (induction evs arbitrary: st)
  case Nil
  then show ?case by (simp add: run_Nil most_recent_all)
next
  case (Cons ev evs)
  have one: "logHistory (step st ev) = most_recent 100 (logHistory st @ logged [ev])"
    by (rule step_history [OF Cons.prems])
  then have "length (logHistory (step st ev)) \<le> 100"
    by (simp add: most_recent_length)
  then have "logHistory (run (step st ev) evs)
               = most_recent 100 (logHistory (step st ev) @ logged evs)"
    by (rule Cons.IH)
  also have "\<dots> = most_recent 100 ((logHistory st @ logged [ev]) @ logged evs)"
    by (simp only: one most_recent_append)
  also have "\<dots> = most_recent 100 (logHistory st @ logged (ev # evs))"
    by (simp add: logged_Cons [of ev evs])
  finally show ?case by (simp add: run_Cons)
qed

lemma step_store_bound:
  assumes "length (stored_entries st) \<le> 500"
  shows "length (stored_entries (step st ev)) \<le> 500"
proof (cases ev)
  case (LogCall h lv msg d c a)
  have "stored_entries (log h lv msg d c a st) = stored_entries st
        \<or> stored_entries (log h lv msg d c a st)
            = stored_entries (persistToLocalStorage h (new_entry h lv msg d c a) st)"
    by (simp add: stored_entries_def log_storage)
  with assms persist_bound [OF assms] LogCall show ?thesis
    by auto
next
  case (Flush h)
  with assms show ?thesis by (simp add: stored_entries_def flush_frame)
next
  case (Settle i r)
  with assms show ?thesis by (simp add: stored_entries_def settle_frame)
qed

lemma run_store_bound:
  "length (stored_entries st) \<le> 500 \<Longrightarrow> length (stored_entries (run st evs)) \<le> 500"
  by (induction evs arbitrary: st) (simp_all add: run_Nil run_Cons step_store_bound)

lemma step_store:
  assumes "store_usable st" and "hosts_work [ev]" and "length (stored_entries st) \<le> 500"
  shows "store_usable (step st ev)"
    and "stored_entries (step st ev) = most_recent 500 (stored_entries st @ persisted [ev])"
proof -
  have "store_usable (step st ev)
      \<and> stored_entries (step st ev) = most_recent 500 (stored_entries st @ persisted [ev])"
  proof (cases ev)
    case (LogCall h lv msg d c a)
    let ?e = "new_entry h lv msg d c a"
    show ?thesis
    proof (cases "(lv = Error \<or> lv = Warn) \<and> serialisable ?e")
      case True
      have w: "storage_works h" using assms(2) LogCall by simp
      have ser: "serialisable ?e" using True by simp
      have same: "localStorage_item (log h lv msg d c a st)
                   = localStorage_item (persistToLocalStorage h ?e st)"
        using True by (simp add: log_storage)
      show ?thesis
        using True LogCall persist_usable [OF w assms(1) ser]
        by (simp add: stored_entries_cong [OF same] store_usable_cong [OF same])
    next
      case False
      have same: "localStorage_item (log h lv msg d c a st) = localStorage_item st"
      proof (cases "lv = Error \<or> lv = Warn")
        case True
        with False have "\<not> serialisable ?e" by simp
        then show ?thesis by (simp add: log_storage persist_rejected)
      next
        case False
        then show ?thesis by (simp add: log_storage)
      qed
      have none: "persisted [LogCall h lv msg d c a] = []"
        using False by auto
      show ?thesis
        unfolding LogCall step.simps none
        using assms(1,3)
        by (simp add: stored_entries_cong [OF same] store_usable_cong [OF same] most_recent_all)
    qed
  next
    case (Flush h)
    have same: "localStorage_item (flushPendingLogs h st) = localStorage_item st"
      by (simp add: flush_frame)
    show ?thesis
      using Flush assms(1,3)
      by (simp add: stored_entries_cong [OF same] store_usable_cong [OF same] most_recent_all)
  next
    case (Settle i r)
    have same: "localStorage_item (settle i r st) = localStorage_item st"
      by (simp add: settle_frame)
    show ?thesis
      using Settle assms(1,3)
      by (simp add: stored_entries_cong [OF same] store_usable_cong [OF same] most_recent_all)
  qed
  then show "store_usable (step st ev)"
    and "stored_entries (step st ev) = most_recent 500 (stored_entries st @ persisted [ev])"
    by simp_all
qed

lemma run_store:
  "store_usable st \<Longrightarrow> hosts_work evs \<Longrightarrow> length (stored_entries st) \<le> 500 \<Longrightarrow>
   stored_entries (run st evs) = most_recent 500 (stored_entries st @ persisted evs)"
proof (induction evs arbitrary: st)
  case Nil
  then show ?case by (simp add: run_Nil most_recent_all)
next
  case (Cons ev evs)
  have hw: "hosts_work [ev]" and hws: "hosts_work evs"
    using Cons.prems(2) hosts_work_Cons [of ev evs] by simp_all
  note s = step_store [OF Cons.prems(1) hw Cons.prems(3)]
  have "length (stored_entries (step st ev)) \<le> 500"
    by (simp add: s(2) most_recent_length)
  with s(1) hws have "stored_entries (run (step st ev) evs)
      = most_recent 500 (stored_entries (step st ev) @ persisted evs)"
    by (intro Cons.IH)
  also have "\<dots> = most_recent 500 ((stored_entries st @ persisted [ev]) @ persisted evs)"
    by (simp only: s(2) most_recent_append)
  also have "\<dots> = most_recent 500 (stored_entries st @ persisted (ev # evs))"
    by (simp add: persisted_Cons [of ev evs])
  finally show ?case by (simp add: run_Cons)
qed

text \<open>What the constructor leaves behind, and runs from there.\<close>

lemma new_logger_history: "history_length (new_logger h stored) \<le> 100"
  by (auto simp: new_logger_def loadFromLocalStorage_def load_try_def getItem_def JSON_parse_def
      slice_from_def maxHistorySize_def history_length_def
      split: sum.splits option.splits json_text.splits json_parsed.splits)

lemma run_on_Intact: "run_on (Intact st) evs = Intact (run st evs)"
  unfolding run_on_def run_def by (induction evs arbitrary: st) simp_all

lemma step_on_string:
  "\<exists>st'. step_on (StringHistory st) ev = StringHistory st' \<and> logHistory st' = logHistory st"
  by (cases ev) (simp_all add: log_on_def flush_frame settle_frame)

lemma run_on_string:
  "\<exists>st'. run_on (StringHistory st) evs = StringHistory st' \<and> logHistory st' = logHistory st"
proof (induction evs arbitrary: st)
  case Nil
  then show ?case by (simp add: run_on_def)
next
  case (Cons ev evs)
  obtain st1 where 1: "step_on (StringHistory st) ev = StringHistory st1"
    and 2: "logHistory st1 = logHistory st"
    using step_on_string [of st ev] by blast
  obtain st2 where "run_on (StringHistory st1) evs = StringHistory st2"
    and "logHistory st2 = logHistory st1"
    using Cons.IH [of st1] by blast
  with 1 2 show ?case by (simp add: run_on_def)
qed

lemma run_on_history:
  assumes "history_length obj \<le> 100"
  shows "history_length (run_on obj evs) \<le> 100"
proof (cases obj)
  case (Intact st)
  with assms have "length (logHistory st) \<le> 100" by (simp add: history_length_def)
  then have "length (logHistory (run st evs)) \<le> 100"
    by (simp only: run_history most_recent_length)
  with Intact show ?thesis by (simp add: run_on_Intact history_length_def)
next
  case (StringHistory st)
  obtain st' where "run_on (StringHistory st) evs = StringHistory st'"
    and "logHistory st' = logHistory st"
    using run_on_string [of st evs] by blast
  with StringHistory assms show ?thesis by (simp add: history_length_def)
qed

text \<open>
  Claim C3. Along every run (calls of the level methods, flushes and settled requests in
  any order) from a logger whose history has at most 100 entries and whose store has at
  most 500, the history never has more than 100 entries and the store never more than
  500. The history is the most recent 100 of all entries appended to it, in the order
  they were appended; where the storage works at every call, the store is the most
  recent 500 of the entries persisted. What the constructor leaves behind has a history of
  length at most 100, and so has every run from there, whatever was stored. Whatever the
  store held before, a write of \<open>persistToLocalStorage\<close> leaves at most 500 entries.
\<close>

theorem history_and_store_bounded:
  assumes "length (logHistory st) \<le> 100" and "length (stored_entries st) \<le> 500"
  shows "length (logHistory (run st evs)) \<le> 100
       \<and> length (stored_entries (run st evs)) \<le> 500
       \<and> logHistory (run st evs) = most_recent 100 (logHistory st @ logged evs)
       \<and> (store_usable st \<and> hosts_work evs \<longrightarrow>
            stored_entries (run st evs) = most_recent 500 (stored_entries st @ persisted evs))
       \<and> history_length (new_logger h stored) \<le> 100
       \<and> history_length (run_on (new_logger h stored) evs) \<le> 100
       \<and> (new_logger h stored = Intact fresh \<longrightarrow>
            length (logHistory fresh) \<le> 100 \<and> length (logHistory (run fresh evs)) \<le> 100)
       \<and> (localStorage_item (persistToLocalStorage h entry any) = localStorage_item any
            \<or> length (stored_entries (persistToLocalStorage h entry any)) \<le> 500)"
proof -
  have a: "logHistory (run st evs) = most_recent 100 (logHistory st @ logged evs)"
    by (rule run_history [OF assms(1)])
  have b: "length (logHistory (run st evs)) \<le> 100"
    by (simp only: a most_recent_length)
  have c: "length (stored_entries (run st evs)) \<le> 500"
    by (rule run_store_bound [OF assms(2)])
  have d: "store_usable st \<and> hosts_work evs \<longrightarrow>
            stored_entries (run st evs) = most_recent 500 (stored_entries st @ persisted evs)"
    using run_store [OF _ _ assms(2)] by blast
  have e: "localStorage_item (persistToLocalStorage h entry any) = localStorage_item any
            \<or> length (stored_entries (persistToLocalStorage h entry any)) \<le> 500"
    using persist_storage_cases [of h entry any]
    by (auto simp: stored_entries_def most_recent_length)
  have f: "history_length (run_on (new_logger h stored) evs) \<le> 100"
    by (rule run_on_history [OF new_logger_history])
  have g: "new_logger h stored = Intact fresh \<longrightarrow>
            length (logHistory fresh) \<le> 100 \<and> length (logHistory (run fresh evs)) \<le> 100"
  proof
    assume i: "new_logger h stored = Intact fresh"
    have "length (logHistory fresh) \<le> 100"
      using new_logger_history [of h stored] by (simp add: i history_length_def)
    then show "length (logHistory fresh) \<le> 100 \<and> length (logHistory (run fresh evs)) \<le> 100"
      by (simp add: run_history most_recent_length)
  qed
  show ?thesis
    using a b c d e f g new_logger_history by blast
qed

theorem history_and_store_bounded_witness:
  "length (logHistory (sample_logger (replicate 100 (sample_entry Info ''old'')) [])) \<le> 100
   \<and> length (stored_entries (sample_logger (replicate 100 (sample_entry Info ''old'')) [])) \<le> 500
   \<and> logHistory (run (sample_logger (replicate 100 (sample_entry Info ''old'')) [])
        [LogCall sample_host Error ''newest'' None None None])
       = replicate 99 (sample_entry Info ''old'')
           @ [new_entry sample_host Error ''newest'' None None None]
   \<and> stored_entries (run (sample_logger (replicate 100 (sample_entry Info ''old'')) [])
        [LogCall sample_host Error ''newest'' None None None])
       = [json_entry (enrichedEntry sample_host (new_entry sample_host Error ''newest'' None None None))]"
proof -
  let ?S = "sample_logger (replicate 100 (sample_entry Info ''old'')) []"
  let ?evs = "[LogCall sample_host Error ''newest'' None None None]"
  have h1: "length (logHistory ?S) \<le> 100" and h2: "length (stored_entries ?S) \<le> 500"
    by (simp_all add: sample_logger_def stored_entries_def)
  have h3: "store_usable ?S \<and> hosts_work ?evs"
    by (simp add: store_usable_def sample_logger_def storage_works_def sample_host_def)
  note t = history_and_store_bounded [OF h1 h2, of ?evs]
  have "logHistory (run ?S ?evs) = most_recent 100 (logHistory ?S @ logged ?evs)"
    using t by blast
  also have "\<dots> = replicate 99 (sample_entry Info ''old'')
           @ [new_entry sample_host Error ''newest'' None None None]"
    by (simp add: most_recent_def sample_logger_def)
  finally have a: "logHistory (run ?S ?evs) = replicate 99 (sample_entry Info ''old'')
           @ [new_entry sample_host Error ''newest'' None None None]" .
  have "stored_entries (run ?S ?evs) = most_recent 500 (stored_entries ?S @ persisted ?evs)"
    using t h3 by blast
  also have "\<dots> = [json_entry (enrichedEntry sample_host (new_entry sample_host Error ''newest'' None None None))]"
    by (simp add: most_recent_def sample_logger_def stored_entries_def serialisable_def
        new_entry_def)
  finally show ?thesis using a h1 h2 by blast
qed

subsection \<open>A host without storage, and storage that fails\<close>

lemma no_window_noop:
  assumes "\<not> has_window h"
  shows "persistToLocalStorage h e st = st"
    and "loadFromLocalStorage h lg = Intact lg"
    and "getPersistedLogs h lv st = EntryArray []"
    and "clearPersistedLogs h st = st"
    and "exportPersistedLogs h lv st = Inr (LogArray [])"
    and "downloadPersistedLogs h lv st = Inr None"
  using assms
  by (simp_all add: persistToLocalStorage_def loadFromLocalStorage_def getPersistedLogs_def
      clearPersistedLogs_def exportPersistedLogs_def downloadPersistedLogs_def JSON_stringify_def)

lemma failures_caught:
  "persist_try h e st = Inl err \<Longrightarrow> persistToLocalStorage h e st = st"
  "load_try h lg = Inl err \<Longrightarrow> loadFromLocalStorage h lg = Intact lg"
  "getPersistedLogs_try h lv st = Inl err \<Longrightarrow> getPersistedLogs h lv st = EntryArray []"
  "removeItem h st = Inl err \<Longrightarrow> clearPersistedLogs h st = st"
  by (simp_all add: persistToLocalStorage_def loadFromLocalStorage_def getPersistedLogs_def
      clearPersistedLogs_def)

text \<open>
  Claim C9. Where there is no window, persisting and clearing leave everything as it is,
  reading the persisted logs gives the empty array, the export is the text of the empty
  array and the download hands over no file. Where there is a window, an error raised in
  the \<open>try\<close> block of an operation (storage that throws on access, a quota that is
  exceeded on writing, a stored text that does not parse or is no array, data that cannot
  be serialised) ends in the \<open>catch\<close> block: the operation returns, with the state
  unchanged or with the empty array. And persisting never touches the history, the
  pending list or the requests.
\<close>

theorem storage_failures_contained:
  "(\<not> has_window h \<longrightarrow>
      persistToLocalStorage h e st = st
      \<and> getPersistedLogs h lv st = EntryArray []
      \<and> clearPersistedLogs h st = st
      \<and> exportPersistedLogs h lv st = Inr (LogArray [])
      \<and> downloadPersistedLogs h lv st = Inr None)
   \<and> (\<forall>err. persist_try h e st = Inl err \<longrightarrow> persistToLocalStorage h e st = st)
   \<and> (\<forall>err. getPersistedLogs_try h lv st = Inl err \<longrightarrow> getPersistedLogs h lv st = EntryArray [])
   \<and> (\<forall>err. removeItem h st = Inl err \<longrightarrow> clearPersistedLogs h st = st)
   \<and> (storage_blocked h \<or> quota_exceeded h \<or> localStorage_item st = Some Malformed
        \<or> localStorage_item st = Some NonArray \<longrightarrow>
        persistToLocalStorage h e st = st)
   \<and> (storage_blocked h \<or> localStorage_item st = Some Malformed \<longrightarrow>
        getPersistedLogs h lv st = EntryArray [] \<and> exportPersistedLogs h lv st = Inr (LogArray []))
   \<and> (storage_blocked h \<longrightarrow> clearPersistedLogs h st = st)
   \<and> logHistory (persistToLocalStorage h e st) = logHistory st
   \<and> pendingLogs (persistToLocalStorage h e st) = pendingLogs st
   \<and> inflight (persistToLocalStorage h e st) = inflight st
   \<and> (localStorage_item st = Some (JsonString s) \<or> \<not> serialisable e \<longrightarrow>
        persistToLocalStorage h e st = st)"
proof -
  have a: "persistToLocalStorage h e st = st"
    if "storage_blocked h \<or> quota_exceeded h \<or> localStorage_item st = Some Malformed
        \<or> localStorage_item st = Some NonArray"
    using that
    by (auto simp: persistToLocalStorage_def persist_try_eq getItem_def setItem_def
        parse_or_empty_def JSON_parse_def split: sum.splits json_parsed.splits)
  have b: "getPersistedLogs h lv st = EntryArray []"
    if "storage_blocked h \<or> localStorage_item st = Some Malformed"
    using that
    by (auto simp: getPersistedLogs_def getPersistedLogs_try_def getItem_def JSON_parse_def)
  have c: "clearPersistedLogs h st = st" if "storage_blocked h"
    using that by (simp add: clearPersistedLogs_def removeItem_def)
  have d: "exportPersistedLogs h lv st = Inr (LogArray [])"
    if "storage_blocked h \<or> localStorage_item st = Some Malformed"
    using b [OF that] by (simp add: exportPersistedLogs_def JSON_stringify_def)
  have f: "persistToLocalStorage h e st = st"
    if "localStorage_item st = Some (JsonString s) \<or> \<not> serialisable e"
    using that persist_rejected [of e h st]
    by (auto simp: persistToLocalStorage_def persist_try_eq getItem_def
        parse_or_empty_def JSON_parse_def split: sum.splits json_parsed.splits)
  show ?thesis
    using a b c d f no_window_noop [of h] failures_caught [of h] persist_frame [of h e st]
    by (intro conjI impI allI) auto
qed

theorem storage_failures_contained_witness:
  "\<not> has_window server_host
   \<and> persistToLocalStorage server_host (sample_entry Error ''boom'') (sample_logger [] []) = sample_logger [] []
   \<and> getPersistedLogs server_host None (sample_logger [] []) = EntryArray []
   \<and> exportPersistedLogs server_host (Some Warn) (sample_logger [] []) = Inr (LogArray [])
   \<and> downloadPersistedLogs server_host None (sample_logger [] []) = Inr None
   \<and> getPersistedLogs sample_host None ((sample_logger [] [])\<lparr>localStorage_item := Some Malformed\<rparr>)
       = EntryArray []
   \<and> persistToLocalStorage (sample_host\<lparr>quota_exceeded := True\<rparr>) (sample_entry Error ''boom'')
        (sample_logger [sample_entry Error ''boom''] [])
       = sample_logger [sample_entry Error ''boom''] []"
proof -
  have n: "\<not> has_window server_host" by (simp add: server_host_def)
  note s = storage_failures_contained [of server_host "sample_entry Error ''boom''" "sample_logger [] []"]
  have 1: "persistToLocalStorage server_host (sample_entry Error ''boom'') (sample_logger [] []) = sample_logger [] []"
    using s n by blast
  have 2: "getPersistedLogs server_host None (sample_logger [] []) = EntryArray []"
    using s [of None] n by blast
  have 3: "exportPersistedLogs server_host (Some Warn) (sample_logger [] []) = Inr (LogArray [])"
    using s [of "Some Warn"] n by blast
  have 4: "downloadPersistedLogs server_host None (sample_logger [] []) = Inr None"
    using s [of None] n by blast
  have m: "localStorage_item ((sample_logger [] [])\<lparr>localStorage_item := Some Malformed\<rparr>) = Some Malformed"
    by simp
  have 5: "getPersistedLogs sample_host None ((sample_logger [] [])\<lparr>localStorage_item := Some Malformed\<rparr>)
       = EntryArray []"
    using storage_failures_contained [of sample_host _
        "(sample_logger [] [])\<lparr>localStorage_item := Some Malformed\<rparr>" None] m by blast
  have q: "quota_exceeded (sample_host\<lparr>quota_exceeded := True\<rparr>)" by simp
  have 6: "persistToLocalStorage (sample_host\<lparr>quota_exceeded := True\<rparr>) (sample_entry Error ''boom'')
        (sample_logger [sample_entry Error ''boom''] [])
       = sample_logger [sample_entry Error ''boom''] []"
    using storage_failures_contained [of "sample_host\<lparr>quota_exceeded := True\<rparr>"
        "sample_entry Error ''boom''" "sample_logger [sample_entry Error ''boom''] []"] q by blast
  show ?thesis using n 1 2 3 4 5 6 by blast
qed


end
